theory Spec2Isabelle
  imports Complex_Main
begin

section \<open>Data model\<close>

text \<open>
  The program \<^verbatim>\<open>quickhull.py\<close> works on points written as two-element Python
  lists \<^verbatim>\<open>[x, y]\<close>; a point is read only through \<^verbatim>\<open>point[0]\<close>,
  \<^verbatim>\<open>point[1]\<close> and \<^verbatim>\<open>==\<close>.  A point is modelled as a pair of numbers, and
  a number as the real it denotes: a Python int is an integer of any size, a Python
  float a finite binary64 value.  Comparisons and the arithmetic of
  \<^verbatim>\<open>cross_product\<close> are exact, as they are on Python ints (on Python floats the
  code rounds each operation, which is not modelled).  \<^verbatim>\<open>math.dist\<close> and the
  division \<^verbatim>\<open>angle/line_distance\<close> work on binary64 values and are modelled with
  their conversions, rounding and errors, see below.  A point set is a list, since
  input order decides ties.
\<close>

type_synonym point = "real \<times> real"

text \<open>
  The exceptions the code can raise.  \<^verbatim>\<open>min\<close>, \<^verbatim>\<open>max\<close> on an empty
  sequence and \<^verbatim>\<open>list.index\<close> on a missing value raise \<^verbatim>\<open>ValueError\<close> (the
  specification's EmptySetError); dividing by a zero distance raises
  \<^verbatim>\<open>ZeroDivisionError\<close> (the specification's DegenerateLineError); an index
  outside a list raises \<^verbatim>\<open>IndexError\<close>; converting an int that is too large
  to a float raises \<^verbatim>\<open>OverflowError\<close>.
\<close>

datatype error = ValueError | ZeroDivisionError | IndexError | OverflowError

section \<open>Python built-ins used by the program\<close>

text \<open>
  \<^verbatim>\<open>min(xs, key=k)\<close> and \<^verbatim>\<open>max(xs, key=k)\<close>: the running best item is replaced
  only by an item whose key is strictly smaller (strictly greater), so the first of
  several extremal items is returned; an empty argument raises \<^verbatim>\<open>ValueError\<close>.
\<close>

fun min_loop :: "('a \<Rightarrow> 'k::linorder) \<Rightarrow> 'a \<Rightarrow> 'a list \<Rightarrow> 'a" where
  "min_loop key best [] = best"
| "min_loop key best (x # xs) = min_loop key (if key x < key best then x else best) xs"

fun max_loop :: "('a \<Rightarrow> 'k::linorder) \<Rightarrow> 'a \<Rightarrow> 'a list \<Rightarrow> 'a" where
  "max_loop key best [] = best"
| "max_loop key best (x # xs) = max_loop key (if key best < key x then x else best) xs"

definition py_min :: "('a \<Rightarrow> 'k::linorder) \<Rightarrow> 'a list \<Rightarrow> error + 'a" where
  "py_min key xs = (case xs of [] \<Rightarrow> Inl ValueError | x # rest \<Rightarrow> Inr (min_loop key x rest))"

definition py_max :: "('a \<Rightarrow> 'k::linorder) \<Rightarrow> 'a list \<Rightarrow> error + 'a" where
  "py_max key xs = (case xs of [] \<Rightarrow> Inl ValueError | x # rest \<Rightarrow> Inr (max_loop key x rest))"

text \<open>\<^verbatim>\<open>xs.index(v)\<close>: the position of the first item equal to \<^verbatim>\<open>v\<close>.\<close>

fun py_index :: "'a list \<Rightarrow> 'a \<Rightarrow> error + nat" where
  "py_index [] v = Inl ValueError"
| "py_index (x # xs) v =
     (if x = v then Inr 0
      else case py_index xs v of Inl err \<Rightarrow> Inl err | Inr i \<Rightarrow> Inr (Suc i))"

text \<open>\<^verbatim>\<open>xs[i]\<close> for a non-negative index.\<close>

definition py_getitem :: "'a list \<Rightarrow> nat \<Rightarrow> error + 'a" where
  "py_getitem xs i = (if i < length xs then Inr (xs ! i) else Inl IndexError)"

section \<open>Binary64 arithmetic\<close>

text \<open>
  A finite binary64 value is \<open>m * 2 ^ e\<close> with an integer \<open>m\<close> of magnitude below
  \<open>2 ^ 53\<close> and \<open>- 1074 \<le> e \<le> 971\<close>.  \<open>round_double\<close> rounds a real to the nearest
  such value with unbounded \<open>e\<close> above, ties to the even \<open>m\<close>: the unit in the last
  place of \<open>x\<close> is \<open>2 ^ double_exponent x\<close>, which is \<open>2 ^ (- 1074)\<close> in the subnormal
  range.
\<close>

definition pow2 :: "int \<Rightarrow> real" where
  "pow2 e = 2 powr (of_int e)"

definition round_half_even :: "real \<Rightarrow> int" where
  "round_half_even y =
     (let f = \<lfloor>y\<rfloor>; r = y - of_int f
      in if r < 1/2 then f else if 1/2 < r then f + 1 else if even f then f else f + 1)"

definition double_exponent :: "real \<Rightarrow> int" where
  "double_exponent x = max (\<lfloor>log 2 \<bar>x\<bar>\<rfloor> - 52) (- 1074)"

definition round_mag :: "real \<Rightarrow> real" where
  "round_mag x =
     of_int (round_half_even (x / pow2 (double_exponent x))) * pow2 (double_exponent x)"

definition round_double :: "real \<Rightarrow> real" where
  "round_double x = (if x = 0 then 0 else if 0 < x then round_mag x else - round_mag (- x))"

text \<open>
  A rounded result of magnitude \<open>2 ^ 1024\<close> or more is an overflow.  An arithmetic
  operation then returns an infinity, for which \<open>double_inf\<close> and \<open>- double_inf\<close>
  stand (they compare with the finite values as the infinities do); the conversion
  of an int, \<^verbatim>\<open>float(n)\<close>, raises \<^verbatim>\<open>OverflowError\<close> instead.
\<close>

definition double_inf :: real where
  "double_inf = 2 ^ 1024"

definition to_double :: "real \<Rightarrow> real" where
  "to_double x =
     (let r = round_double x
      in if double_inf \<le> r then double_inf else if r \<le> - double_inf then - double_inf else r)"

definition py_float :: "real \<Rightarrow> error + real" where
  "py_float x =
     (let r = round_double x in if double_inf \<le> \<bar>r\<bar> then Inl OverflowError else Inr r)"

text \<open>
  The binary64 quotient of a finite \<open>a\<close> by a non-zero \<open>b\<close>: the rounded exact
  quotient, and zero when \<open>b\<close> is an infinity.
\<close>

definition double_div :: "real \<Rightarrow> real \<Rightarrow> real" where
  "double_div a b = (if \<bar>b\<bar> = double_inf then 0 else to_double (a / b))"

text \<open>
  \<^verbatim>\<open>a / b\<close> with a float \<^verbatim>\<open>b\<close>: \<^verbatim>\<open>a\<close> is converted first, which can raise
  \<^verbatim>\<open>OverflowError\<close>; then a zero divisor raises \<^verbatim>\<open>ZeroDivisionError\<close>.
\<close>

definition py_truediv :: "real \<Rightarrow> real \<Rightarrow> error + real" where
  "py_truediv a b =
     (case py_float a of
        Inl err \<Rightarrow> Inl err
      | Inr a' \<Rightarrow> if b = 0 then Inl ZeroDivisionError else Inr (double_div a' b))"

text \<open>
  \<^verbatim>\<open>math.dist(p, q)\<close>: both points are converted to binary64 coordinate by
  coordinate, the differences are taken in binary64, and the Euclidean norm of the
  differences is returned.  The norm is modelled as correctly rounded; CPython
  documents its error as below one unit in the last place, and returns exactly
  \<^verbatim>\<open>0.0\<close> when both differences are zero.
\<close>

definition math_dist :: "point \<Rightarrow> point \<Rightarrow> error + real" where
  "math_dist p q =
     (case py_float (fst p) of
        Inl err \<Rightarrow> Inl err
      | Inr px \<Rightarrow>
     (case py_float (fst q) of
        Inl err \<Rightarrow> Inl err
      | Inr qx \<Rightarrow>
     (case py_float (snd p) of
        Inl err \<Rightarrow> Inl err
      | Inr py \<Rightarrow>
     (case py_float (snd q) of
        Inl err \<Rightarrow> Inl err
      | Inr qy \<Rightarrow>
          Inr (to_double (sqrt ((to_double (px - qx))\<^sup>2 + (to_double (py - qy))\<^sup>2)))))))"

text \<open>Every binary64 value is an integer multiple of \<open>2 ^ (- 1074)\<close>.\<close>

definition on_grid :: "real \<Rightarrow> bool" where
  "on_grid a \<longleftrightarrow> (\<exists>m. a = of_int m * pow2 (- 1074))"

section \<open>The functions of the program\<close>

definition cross_product :: "point \<Rightarrow> point \<Rightarrow> point \<Rightarrow> real" where
  "cross_product point1 point2 point3 =
     (fst point2 - fst point1) * (snd point3 - snd point1)
       - (fst point3 - fst point1) * (snd point2 - snd point1)"

text \<open>
  The loop of \<^verbatim>\<open>find_coordinates_above_and_below_line\<close>, with the two result lists
  as accumulators.  The first conditional of the loop body has the body
  \<^verbatim>\<open>pass\<close>: it is kept as a unit-valued expression that is not used.
\<close>

fun above_below_loop ::
  "point list \<Rightarrow> point \<Rightarrow> point \<Rightarrow> point list \<times> point list \<Rightarrow> point list \<times> point list" where
  "above_below_loop [] line_start line_end (above_line, below_line) = (above_line, below_line)"
| "above_below_loop (point # rest) line_start line_end (above_line, below_line) =
     (let angle = cross_product line_start line_end point;
          pass = (if angle = 0 \<or> point = line_start \<or> point = line_end then () else ())
      in if angle > 0
         then above_below_loop rest line_start line_end (above_line @ [point], below_line)
         else above_below_loop rest line_start line_end (above_line, below_line @ [point]))"

definition find_coordinates_above_and_below_line ::
  "point list \<Rightarrow> point \<Rightarrow> point \<Rightarrow> point list \<times> point list" where
  "find_coordinates_above_and_below_line coordinates line_start line_end =
     above_below_loop coordinates line_start line_end ([], [])"

definition find_leftmost_and_rightmost :: "point list \<Rightarrow> error + (point \<times> point)" where
  "find_leftmost_and_rightmost coordinates =
     (case py_min fst coordinates of
        Inl err \<Rightarrow> Inl err
      | Inr leftmost \<Rightarrow>
          (case py_max fst coordinates of
             Inl err \<Rightarrow> Inl err
           | Inr rightmost \<Rightarrow> Inr (leftmost, rightmost)))"

definition distance_from_line_to_point :: "point \<Rightarrow> point \<Rightarrow> point \<Rightarrow> error + real" where
  "distance_from_line_to_point line_start line_end point =
     (case math_dist line_start line_end of
        Inl err \<Rightarrow> Inl err
      | Inr line_distance \<Rightarrow>
          (let angle = cross_product line_start line_end point
           in py_truediv angle line_distance))"

text \<open>The loop of \<^verbatim>\<open>farthest_point_from_line\<close> that fills \<^verbatim>\<open>distances\<close>.\<close>

fun distances_loop :: "point list \<Rightarrow> point \<Rightarrow> point \<Rightarrow> real list \<Rightarrow> error + real list" where
  "distances_loop [] line_start line_end distances = Inr distances"
| "distances_loop (point # rest) line_start line_end distances =
     (case distance_from_line_to_point line_start line_end point of
        Inl err \<Rightarrow> Inl err
      | Inr d \<Rightarrow> distances_loop rest line_start line_end (distances @ [d]))"

definition farthest_point_from_line :: "point list \<Rightarrow> point \<Rightarrow> point \<Rightarrow> error + point" where
  "farthest_point_from_line coordinates line_start line_end =
     (case distances_loop coordinates line_start line_end [] of
        Inl err \<Rightarrow> Inl err
      | Inr distances \<Rightarrow>
          (case py_max (\<lambda>d. d) distances of
             Inl err \<Rightarrow> Inl err
           | Inr m \<Rightarrow>
               (case py_index distances m of
                  Inl err \<Rightarrow> Inl err
                | Inr index \<Rightarrow> py_getitem coordinates index)))"

text \<open>
  \<^verbatim>\<open>find_hull\<close> calls itself on the two positive-side subsets.  Every
  exception of a callee leaves the function at once, so each call that can raise is a
  case distinction on its result.  The recursion is not structural; its termination
  is proved below, after the facts about the farthest point that the proof needs.
\<close>

function find_hull :: "point list \<Rightarrow> point \<Rightarrow> point \<Rightarrow> error + point list" where
  "find_hull subset_of_coordinates line_start line_end =
     (if subset_of_coordinates = [] then Inr []
      else
        case farthest_point_from_line subset_of_coordinates line_start line_end of
          Inl err \<Rightarrow> Inl err
        | Inr farthest_point \<Rightarrow>
            (let convex_hull = [farthest_point];
                 coordinates_above_right_side =
                   fst (find_coordinates_above_and_below_line
                          subset_of_coordinates line_start farthest_point);
                 coordinates_above_left_side =
                   fst (find_coordinates_above_and_below_line
                          subset_of_coordinates farthest_point line_end)
             in case find_hull coordinates_above_right_side line_start farthest_point of
                  Inl err \<Rightarrow> Inl err
                | Inr right_hull \<Rightarrow>
                    (case find_hull coordinates_above_left_side farthest_point line_end of
                       Inl err \<Rightarrow> Inl err
                     | Inr left_hull \<Rightarrow> Inr (convex_hull @ right_hull @ left_hull))))"
  by pat_completeness auto

definition quick_hull :: "point list \<Rightarrow> error + point list" where
  "quick_hull coordinates =
     (case find_leftmost_and_rightmost coordinates of
        Inl err \<Rightarrow> Inl err
      | Inr (leftmost, rightmost) \<Rightarrow>
          (case find_coordinates_above_and_below_line coordinates leftmost rightmost of
             (coords_above_line, coords_below_line) \<Rightarrow>
               (case find_hull coords_above_line leftmost rightmost of
                  Inl err \<Rightarrow> Inl err
                | Inr above_convex_hull \<Rightarrow>
                    (case find_hull coords_below_line rightmost leftmost of
                       Inl err \<Rightarrow> Inl err
                     | Inr below_convex_hull \<Rightarrow>
                         Inr ([leftmost] @ above_convex_hull @ below_convex_hull @ [rightmost])))))"

text \<open>
  The call tree of \<^verbatim>\<open>find_hull\<close> as a relation: a call halts when the subset is
  empty, when selecting the farthest point raises, or when both recursive calls halt.
\<close>

inductive find_hull_halts :: "point list \<Rightarrow> point \<Rightarrow> point \<Rightarrow> bool" where
  halts_empty: "find_hull_halts [] line_start line_end"
| halts_raise:
    "subset_of_coordinates \<noteq> [] \<Longrightarrow>
     farthest_point_from_line subset_of_coordinates line_start line_end = Inl err \<Longrightarrow>
     find_hull_halts subset_of_coordinates line_start line_end"
| halts_step:
    "subset_of_coordinates \<noteq> [] \<Longrightarrow>
     farthest_point_from_line subset_of_coordinates line_start line_end = Inr farthest_point \<Longrightarrow>
     find_hull_halts
       (fst (find_coordinates_above_and_below_line subset_of_coordinates line_start farthest_point))
       line_start farthest_point \<Longrightarrow>
     find_hull_halts
       (fst (find_coordinates_above_and_below_line subset_of_coordinates farthest_point line_end))
       farthest_point line_end \<Longrightarrow>
     find_hull_halts subset_of_coordinates line_start line_end"

section \<open>Facts about binary64 rounding\<close>

lemma pow2_pos [simp]: "0 < pow2 e"
  by (simp add: pow2_def)

lemma pow2_nonneg [simp]: "0 \<le> pow2 e"
  by (simp add: pow2_def)

lemma pow2_neq_0 [simp]: "pow2 e \<noteq> 0"
  by (simp add: pow2_def)

lemma pow2_add: "pow2 (a + b) = pow2 a * pow2 b"
  by (simp add: pow2_def powr_add)

lemma pow2_mono: "a \<le> b \<Longrightarrow> pow2 a \<le> pow2 b"
  by (simp add: pow2_def)

lemma pow2_less: "a < b \<Longrightarrow> pow2 a < pow2 b"
  by (simp add: pow2_def)

lemma pow2_nat: "pow2 (int n) = 2 ^ n"
  by (simp add: pow2_def powr_realpow)

lemma pow2_0 [simp]: "pow2 0 = 1"
  by (simp add: pow2_def)

lemma pow2_diff_nat: "e \<le> j \<Longrightarrow> pow2 j = of_int (2 ^ nat (j - e)) * pow2 e"
proof -
  assume le: "e \<le> j"
  have "pow2 j = pow2 ((j - e) + e)" by simp
  also have "\<dots> = pow2 (j - e) * pow2 e" by (rule pow2_add)
  also have "pow2 (j - e) = 2 ^ nat (j - e)" using pow2_nat[of "nat (j - e)"] le by simp
  finally show ?thesis by simp
qed

lemma round_half_even_of_int [simp]: "round_half_even (of_int k) = k"
  by (simp add: round_half_even_def)

lemma round_half_even_bounds: "\<lfloor>y\<rfloor> \<le> round_half_even y \<and> round_half_even y \<le> \<lfloor>y\<rfloor> + 1"
  by (simp add: round_half_even_def Let_def)

lemma round_half_even_mono: "y \<le> z \<Longrightarrow> round_half_even y \<le> round_half_even z"
proof -
  assume yz: "y \<le> z"
  then have fl: "\<lfloor>y\<rfloor> \<le> \<lfloor>z\<rfloor>" by (rule floor_mono)
  show ?thesis
  proof (cases "\<lfloor>y\<rfloor> < \<lfloor>z\<rfloor>")
    case True
    then show ?thesis
      using round_half_even_bounds[of y] round_half_even_bounds[of z] by linarith
  next
    case False
    with fl have eq: "\<lfloor>y\<rfloor> = \<lfloor>z\<rfloor>" by simp
    then show ?thesis using yz by (auto simp: round_half_even_def Let_def)
  qed
qed

lemma round_half_even_ge: "of_int k \<le> y \<Longrightarrow> k \<le> round_half_even y"
  using round_half_even_mono[of "of_int k" y] by simp

lemma round_half_even_le: "y \<le> of_int k \<Longrightarrow> round_half_even y \<le> k"
  using round_half_even_mono[of y "of_int k"] by simp

lemma double_exponent_ge: "- 1074 \<le> double_exponent x"
  by (simp add: double_exponent_def)

lemma floor_log2_bounds:
  assumes "0 < x"
  shows "pow2 \<lfloor>log 2 x\<rfloor> \<le> x" and "x < pow2 (\<lfloor>log 2 x\<rfloor> + 1)"
  using floor_log_eq_powr_iff[of x 2 "\<lfloor>log 2 x\<rfloor>"] assms by (simp_all add: pow2_def)

lemma double_exponent_upper:
  assumes "0 < x" shows "x < pow2 (double_exponent x + 53)"
proof -
  have "x < pow2 (\<lfloor>log 2 x\<rfloor> + 1)" using assms by (rule floor_log2_bounds)
  also have "\<dots> \<le> pow2 (double_exponent x + 53)"
    using assms by (intro pow2_mono) (simp add: double_exponent_def)
  finally show ?thesis .
qed

lemma double_exponent_lower:
  assumes "0 < x" "- 1074 < double_exponent x"
  shows "pow2 (double_exponent x + 52) \<le> x"
proof -
  have "double_exponent x = \<lfloor>log 2 x\<rfloor> - 52"
    using assms by (simp add: double_exponent_def max_def split: if_splits)
  then show ?thesis using floor_log2_bounds(1)[OF assms(1)] by simp
qed

lemma double_exponent_mono:
  assumes "0 < x" "x \<le> y" shows "double_exponent x \<le> double_exponent y"
proof -
  have "log 2 x \<le> log 2 y" using assms by (intro log_mono) simp_all
  then have "\<lfloor>log 2 x\<rfloor> \<le> \<lfloor>log 2 y\<rfloor>" by (rule floor_mono)
  then show ?thesis using assms by (simp add: double_exponent_def)
qed

lemma double_exponent_le:
  assumes "0 < x" "x < pow2 (j + 53)" "- 1074 \<le> j"
  shows "double_exponent x \<le> j"
proof -
  have "pow2 \<lfloor>log 2 x\<rfloor> < pow2 (j + 53)"
    using floor_log2_bounds(1)[OF assms(1)] assms(2) by simp
  then have "\<lfloor>log 2 x\<rfloor> < j + 53" by (simp add: pow2_def)
  then show ?thesis using assms by (simp add: double_exponent_def)
qed

lemma round_mag_nonneg: "0 < x \<Longrightarrow> 0 \<le> round_mag x"
  unfolding round_mag_def
  by (intro mult_nonneg_nonneg) (simp_all add: round_half_even_ge)

lemma round_mag_dyadic:
  assumes k: "0 < k" "k < 2 ^ 53" and j: "- 1074 \<le> j"
  shows "round_mag (of_int k * pow2 j) = of_int k * pow2 j"
proof -
  let ?x = "of_int k * pow2 j"
  let ?e = "double_exponent ?x"
  have pos: "0 < ?x" using k by simp
  have "?x < 2 ^ 53 * pow2 j" using k by simp
  also have "\<dots> = pow2 (j + 53)" using pow2_nat[of 53] by (simp add: pow2_add)
  finally have "?e \<le> j" using pos j by (intro double_exponent_le)
  then have pj: "pow2 j = of_int (2 ^ nat (j - ?e)) * pow2 ?e" by (rule pow2_diff_nat)
  have "?x / pow2 ?e = of_int (k * 2 ^ nat (j - ?e))"
    by (subst pj) simp
  then have "round_half_even (?x / pow2 ?e) = k * 2 ^ nat (j - ?e)"
    by (simp only: round_half_even_of_int)
  then have "round_mag ?x = of_int (k * 2 ^ nat (j - ?e)) * pow2 ?e"
    by (simp only: round_mag_def)
  also have "\<dots> = of_int k * (of_int (2 ^ nat (j - ?e)) * pow2 ?e)" by simp
  also have "\<dots> = ?x" using pj by simp
  finally show ?thesis .
qed

lemma round_mag_mono:
  assumes "0 < x" "x \<le> y" shows "round_mag x \<le> round_mag y"
proof -
  let ?ex = "double_exponent x" and ?ey = "double_exponent y"
  have ypos: "0 < y" using assms by simp
  have le: "?ex \<le> ?ey" using assms by (rule double_exponent_mono)
  show ?thesis
  proof (cases "?ex = ?ey")
    case True
    have "x / pow2 ?ey \<le> y / pow2 ?ey" using assms by (simp add: divide_right_mono)
    then have "round_half_even (x / pow2 ?ey) \<le> round_half_even (y / pow2 ?ey)"
      by (rule round_half_even_mono)
    then show ?thesis by (simp add: round_mag_def True)
  next
    case False
    with le have lt: "?ex < ?ey" by simp
    have "x / pow2 ?ex \<le> 2 ^ 53"
    proof -
      have "x < pow2 (?ex + 53)" using assms(1) by (rule double_exponent_upper)
      also have "\<dots> = 2 ^ 53 * pow2 ?ex" using pow2_nat[of 53] by (simp add: pow2_add)
      finally show ?thesis by (simp add: pos_divide_le_eq)
    qed
    then have "x / pow2 ?ex \<le> of_int (2 ^ 53)" by simp
    then have "round_half_even (x / pow2 ?ex) \<le> 2 ^ 53" by (rule round_half_even_le)
    then have "round_mag x \<le> 2 ^ 53 * pow2 ?ex"
      unfolding round_mag_def
      by (intro mult_right_mono) (simp_all add: of_int_le_iff[symmetric] del: of_int_le_iff)
    also have "\<dots> = pow2 (?ex + 53)" using pow2_nat[of 53] by (simp add: pow2_add)
    also have "\<dots> \<le> pow2 (?ey + 52)" using lt by (intro pow2_mono) simp
    also have "\<dots> \<le> round_mag y"
    proof -
      have "- 1074 < ?ey" using lt double_exponent_ge[of x] by simp
      then have "pow2 (?ey + 52) \<le> y" using ypos by (intro double_exponent_lower)
      then have "2 ^ 52 * pow2 ?ey \<le> y" using pow2_nat[of 52] by (simp add: pow2_add)
      then have "of_int (2 ^ 52) \<le> y / pow2 ?ey" by (simp add: pos_le_divide_eq)
      then have "2 ^ 52 \<le> round_half_even (y / pow2 ?ey)" by (rule round_half_even_ge)
      then have "2 ^ 52 * pow2 ?ey \<le> round_mag y"
        unfolding round_mag_def
        by (intro mult_right_mono) (simp_all add: of_int_le_iff[symmetric] del: of_int_le_iff)
      then show ?thesis using pow2_nat[of 52] by (simp add: pow2_add)
    qed
    finally show ?thesis .
  qed
qed

lemma round_mag_grid: "\<exists>m. round_mag x = of_int m * pow2 (- 1074)"
proof -
  have "pow2 (double_exponent x) =
      of_int (2 ^ nat (double_exponent x - (- 1074))) * pow2 (- 1074)"
    using double_exponent_ge[of x] by (rule pow2_diff_nat)
  then have "round_mag x =
      of_int (round_half_even (x / pow2 (double_exponent x))
              * 2 ^ nat (double_exponent x - (- 1074))) * pow2 (- 1074)"
    by (simp add: round_mag_def)
  then show ?thesis by blast
qed

lemma round_double_0 [simp]: "round_double 0 = 0"
  by (simp add: round_double_def)

lemma round_double_minus [simp]: "round_double (- x) = - round_double x"
  by (simp add: round_double_def)

lemma round_double_nonneg: "0 \<le> x \<Longrightarrow> 0 \<le> round_double x"
  by (simp add: round_double_def round_mag_nonneg)

lemma round_double_nonpos: "x \<le> 0 \<Longrightarrow> round_double x \<le> 0"
  using round_double_nonneg[of "- x"] by simp

lemma round_double_mono: "x \<le> y \<Longrightarrow> round_double x \<le> round_double y"
proof -
  assume xy: "x \<le> y"
  consider "0 < x" | "x \<le> 0" "0 \<le> y" | "y < 0" by linarith
  then show ?thesis
  proof cases
    case 1
    then show ?thesis using xy round_mag_mono[of x y] by (simp add: round_double_def)
  next
    case 2
    then show ?thesis using round_double_nonpos[of x] round_double_nonneg[of y] by simp
  next
    case 3
    then have "round_mag (- y) \<le> round_mag (- x)" using xy by (intro round_mag_mono) simp_all
    then show ?thesis using 3 xy by (simp add: round_double_def)
  qed
qed

lemma round_double_dyadic:
  assumes "\<bar>k\<bar> < 2 ^ 53" "- 1074 \<le> j"
  shows "round_double (of_int k * pow2 j) = of_int k * pow2 j"
proof -
  consider "k = 0" | "0 < k" | "k < 0" by linarith
  then show ?thesis
  proof cases
    case 1
    then show ?thesis by simp
  next
    case 2
    then have "0 < of_int k * pow2 j" by simp
    then show ?thesis using 2 assms round_mag_dyadic[of k j] by (simp add: round_double_def)
  next
    case 3
    then have neg: "of_int k * pow2 j < 0" by (simp add: mult_neg_pos)
    have "round_mag (of_int (- k) * pow2 j) = of_int (- k) * pow2 j"
      using 3 assms by (intro round_mag_dyadic) simp_all
    then show ?thesis using neg by (simp add: round_double_def)
  qed
qed

lemma round_double_of_int:
  assumes "\<bar>k\<bar> \<le> 2 ^ 53" shows "round_double (of_int k) = of_int k"
proof (cases "\<bar>k\<bar> < 2 ^ 53")
  case True
  then show ?thesis using round_double_dyadic[of k 0] by simp
next
  case False
  with assms have "\<bar>k\<bar> = 2 ^ 53" by simp
  then consider "k = 2 ^ 53" | "k = - (2 ^ 53)" by (auto simp: abs_if split: if_splits)
  then show ?thesis
  proof cases
    case 1
    have "round_double (of_int (2 ^ 52) * pow2 1) = of_int (2 ^ 52) * pow2 1"
      by (rule round_double_dyadic) simp_all
    moreover have "pow2 1 = 2" using pow2_nat[of 1] by simp
    ultimately show ?thesis by (simp add: 1)
  next
    case 2
    have "round_double (of_int (- (2 ^ 52)) * pow2 1) = of_int (- (2 ^ 52)) * pow2 1"
      by (rule round_double_dyadic) simp_all
    moreover have "pow2 1 = 2" using pow2_nat[of 1] by simp
    ultimately show ?thesis by (simp add: 2)
  qed
qed

lemma round_double_numeral:
  "(numeral w :: int) \<le> 2 ^ 53 \<Longrightarrow> round_double (numeral w) = numeral w"
  using round_double_of_int[of "numeral w"] by simp

lemma round_double_1 [simp]: "round_double 1 = 1"
  using round_double_of_int[of 1] by simp

lemma round_double_half: "(numeral w :: int) < 2 ^ 53 \<Longrightarrow> round_double (numeral w / 2) = numeral w / 2"
proof -
  assume "(numeral w :: int) < 2 ^ 53"
  then have "round_double (of_int (numeral w) * pow2 (- 1)) = of_int (numeral w) * pow2 (- 1)"
    by (intro round_double_dyadic) simp_all
  moreover have "pow2 (- 1) = 1 / 2" by (simp add: pow2_def powr_minus_divide)
  ultimately show ?thesis by simp
qed

lemma round_double_grid: "on_grid (round_double x)"
proof -
  obtain m where m: "round_mag x = of_int m * pow2 (- 1074)" using round_mag_grid by blast
  obtain m' where m': "round_mag (- x) = of_int m' * pow2 (- 1074)" using round_mag_grid by blast
  have "- round_mag (- x) = of_int (- m') * pow2 (- 1074)" by (simp add: m')
  moreover have "(0::real) = of_int 0 * pow2 (- 1074)" by simp
  ultimately show ?thesis unfolding on_grid_def round_double_def using m by metis
qed

lemma on_grid_diff:
  assumes "on_grid a" "on_grid b" "a \<noteq> b" shows "pow2 (- 1074) \<le> \<bar>a - b\<bar>"
proof -
  obtain m n where a: "a = of_int m * pow2 (- 1074)" and b: "b = of_int n * pow2 (- 1074)"
    using assms by (auto simp: on_grid_def)
  have "m \<noteq> n" using assms(3) a b by auto
  then have "1 \<le> \<bar>m - n\<bar>" by simp
  then have "(1::real) \<le> \<bar>of_int (m - n)\<bar>" by (metis of_int_abs of_int_1_le_iff)
  then have "1 * pow2 (- 1074) \<le> \<bar>of_int (m - n)\<bar> * pow2 (- 1074)"
    by (intro mult_right_mono) simp_all
  also have "\<dots> = \<bar>of_int (m - n) * pow2 (- 1074)\<bar>" by (simp add: abs_mult)
  also have "of_int (m - n) * pow2 (- 1074) = a - b" by (simp add: a b algebra_simps)
  finally show ?thesis by simp
qed

lemma round_double_tiny: "round_double (pow2 (- 1074)) = pow2 (- 1074)"
  using round_double_dyadic[of 1 "- 1074"] by simp

lemma round_double_pos: "pow2 (- 1074) \<le> x \<Longrightarrow> pow2 (- 1074) \<le> round_double x"
  using round_double_mono[of "pow2 (- 1074)" x] by (simp add: round_double_tiny)

lemma round_double_abs_pos:
  assumes "pow2 (- 1074) \<le> \<bar>x\<bar>" shows "round_double x \<noteq> 0"
proof (cases "0 \<le> x")
  case True
  then have "pow2 (- 1074) \<le> round_double x" using assms by (intro round_double_pos) simp
  moreover have "0 < pow2 (- 1074)" by simp
  ultimately show ?thesis by linarith
next
  case False
  then have "pow2 (- 1074) \<le> round_double (- x)" using assms by (intro round_double_pos) simp
  then have "pow2 (- 1074) \<le> - round_double x" by simp
  moreover have "0 < pow2 (- 1074)" by simp
  ultimately show ?thesis by linarith
qed

lemma double_inf_pos [simp]: "0 < double_inf"
  by (simp add: double_inf_def)

lemma double_inf_not_le [simp]: "\<not> double_inf \<le> 0"
  using double_inf_pos by linarith

lemma to_double_0 [simp]: "to_double 0 = 0"
  by (simp add: to_double_def)

lemma to_double_eq_0_iff: "to_double x = 0 \<longleftrightarrow> round_double x = 0"
  using double_inf_pos by (auto simp: to_double_def Let_def simp del: double_inf_pos)

lemma to_double_mono: "x \<le> y \<Longrightarrow> to_double x \<le> to_double y"
  using round_double_mono[of x y] double_inf_pos
  by (auto simp: to_double_def Let_def simp del: double_inf_pos)

lemma to_double_nonneg: "0 \<le> x \<Longrightarrow> 0 \<le> to_double x"
  using to_double_mono[of 0 x] by simp

lemma to_double_fix:
  "round_double x = x \<Longrightarrow> \<bar>x\<bar> < double_inf \<Longrightarrow> to_double x = x"
  by (auto simp: to_double_def)

lemma small_below_inf: "\<bar>x\<bar> \<le> 2 ^ 53 \<Longrightarrow> \<bar>x\<bar> < double_inf"
proof -
  have "(2::real) ^ 53 < 2 ^ 1024" by (intro power_strict_increasing) simp_all
  then show "\<bar>x\<bar> \<le> 2 ^ 53 \<Longrightarrow> \<bar>x\<bar> < double_inf" by (simp add: double_inf_def)
qed

lemma round_double_small: "\<bar>x\<bar> \<le> 2 ^ 53 \<Longrightarrow> \<bar>round_double x\<bar> \<le> 2 ^ 53"
proof -
  assume a: "\<bar>x\<bar> \<le> 2 ^ 53"
  have f: "round_double (2 ^ 53) = 2 ^ 53" using round_double_of_int[of "2 ^ 53"] by simp
  have "round_double x \<le> round_double (2 ^ 53)" using a by (intro round_double_mono) simp
  moreover have "round_double (- (2 ^ 53)) \<le> round_double x"
    using a by (intro round_double_mono) simp
  ultimately show ?thesis using f by (simp add: abs_le_iff)
qed

lemma py_float_small: "\<bar>x\<bar> \<le> 2 ^ 53 \<Longrightarrow> py_float x = Inr (round_double x)"
  using small_below_inf[OF round_double_small, of x] by (simp add: py_float_def)

lemma py_float_numeral [simp]:
  "(numeral w :: int) \<le> 2 ^ 53 \<Longrightarrow> py_float (numeral w) = Inr (numeral w)"
proof -
  assume a: "(numeral w :: int) \<le> 2 ^ 53"
  then have "(of_int (numeral w) :: real) \<le> of_int (2 ^ 53)" by (simp only: of_int_le_iff)
  then have "\<bar>numeral w :: real\<bar> \<le> 2 ^ 53" by simp
  then show ?thesis using a by (simp add: py_float_small round_double_numeral)
qed

lemma py_float_neg_numeral [simp]:
  "(numeral w :: int) \<le> 2 ^ 53 \<Longrightarrow> py_float (- numeral w) = Inr (- numeral w)"
proof -
  assume a: "(numeral w :: int) \<le> 2 ^ 53"
  then have "(of_int (numeral w) :: real) \<le> of_int (2 ^ 53)" by (simp only: of_int_le_iff)
  then have "\<bar>- numeral w :: real\<bar> \<le> 2 ^ 53" by simp
  then show ?thesis using a by (simp add: py_float_small round_double_numeral)
qed

lemma py_float_0 [simp]: "py_float 0 = Inr 0"
  by (simp add: py_float_def)

lemma py_float_1 [simp]: "py_float 1 = Inr 1"
  by (simp add: py_float_def double_inf_def)

lemma py_float_Inr: "py_float x = Inr a \<Longrightarrow> a = round_double x \<and> \<bar>a\<bar> < double_inf"
  by (auto simp: py_float_def Let_def split: if_splits)


lemma on_grid_0 [simp]: "on_grid 0"
  unfolding on_grid_def by (rule exI[of _ 0]) simp

lemma on_grid_minus: "on_grid a \<Longrightarrow> on_grid (- a)"
proof -
  assume "on_grid a"
  then obtain m where "a = of_int m * pow2 (- 1074)" by (auto simp: on_grid_def)
  then have "- a = of_int (- m) * pow2 (- 1074)" by simp
  then show ?thesis unfolding on_grid_def by blast
qed

lemma on_grid_double_inf: "on_grid double_inf"
proof -
  have "pow2 1024 = of_int (2 ^ nat (1024 - (- 1074))) * pow2 (- 1074)"
    by (rule pow2_diff_nat) simp
  moreover have "pow2 1024 = double_inf" using pow2_nat[of 1024] by (simp add: double_inf_def)
  ultimately show ?thesis unfolding on_grid_def by metis
qed

lemma on_grid_to_double: "on_grid (to_double x)"
  using round_double_grid[of x] on_grid_double_inf on_grid_minus[OF on_grid_double_inf]
  by (simp add: to_double_def Let_def)

lemma on_grid_nonzero: "on_grid a \<Longrightarrow> a \<noteq> 0 \<Longrightarrow> pow2 (- 1074) \<le> \<bar>a\<bar>"
  using on_grid_diff[of a 0] by simp

lemma to_double_diff_eq_0:
  assumes "on_grid a" "on_grid b" shows "to_double (a - b) = 0 \<longleftrightarrow> a = b"
proof
  assume "to_double (a - b) = 0"
  then have z: "round_double (a - b) = 0" by (simp add: to_double_eq_0_iff)
  show "a = b"
  proof (rule ccontr)
    assume "a \<noteq> b"
    then have "pow2 (- 1074) \<le> \<bar>a - b\<bar>" using assms by (intro on_grid_diff)
    then have "round_double (a - b) \<noteq> 0" by (rule round_double_abs_pos)
    with z show False by simp
  qed
next
  assume "a = b" then show "to_double (a - b) = 0" by simp
qed

lemma double_norm_eq_0:
  assumes "on_grid u" "on_grid v"
  shows "to_double (sqrt (u\<^sup>2 + v\<^sup>2)) = 0 \<longleftrightarrow> u = 0 \<and> v = 0"
proof
  assume "to_double (sqrt (u\<^sup>2 + v\<^sup>2)) = 0"
  then have z: "round_double (sqrt (u\<^sup>2 + v\<^sup>2)) = 0" by (simp add: to_double_eq_0_iff)
  have "u = 0"
  proof (rule ccontr)
    assume "u \<noteq> 0"
    then have "pow2 (- 1074) \<le> \<bar>u\<bar>" using assms(1) by (intro on_grid_nonzero)
    also have "\<bar>u\<bar> \<le> sqrt (u\<^sup>2 + v\<^sup>2)" by (rule real_sqrt_ge_abs1)
    finally have "pow2 (- 1074) \<le> round_double (sqrt (u\<^sup>2 + v\<^sup>2))" by (rule round_double_pos)
    with z show False using pow2_pos[of "- 1074"] by simp
  qed
  moreover have "v = 0"
  proof (rule ccontr)
    assume "v \<noteq> 0"
    then have "pow2 (- 1074) \<le> \<bar>v\<bar>" using assms(2) by (intro on_grid_nonzero)
    also have "\<bar>v\<bar> \<le> sqrt (u\<^sup>2 + v\<^sup>2)" by (rule real_sqrt_ge_abs2)
    finally have "pow2 (- 1074) \<le> round_double (sqrt (u\<^sup>2 + v\<^sup>2))" by (rule round_double_pos)
    with z show False using pow2_pos[of "- 1074"] by simp
  qed
  ultimately show "u = 0 \<and> v = 0" by simp
next
  assume "u = 0 \<and> v = 0" then show "to_double (sqrt (u\<^sup>2 + v\<^sup>2)) = 0" by simp
qed


lemma math_dist_Inr_iff:
  "math_dist p q = Inr d \<longleftrightarrow>
     \<bar>round_double (fst p)\<bar> < double_inf \<and> \<bar>round_double (fst q)\<bar> < double_inf \<and>
     \<bar>round_double (snd p)\<bar> < double_inf \<and> \<bar>round_double (snd q)\<bar> < double_inf \<and>
     d = to_double (sqrt ((to_double (round_double (fst p) - round_double (fst q)))\<^sup>2
                        + (to_double (round_double (snd p) - round_double (snd q)))\<^sup>2))"
  by (auto simp: math_dist_def py_float_def Let_def split: sum.splits)

lemma math_dist_nonneg: "math_dist p q = Inr d \<Longrightarrow> 0 \<le> d"
  by (auto simp: math_dist_Inr_iff intro: to_double_nonneg)

lemma math_dist_eq_0_iff:
  assumes "math_dist p q = Inr d"
  shows "d = 0 \<longleftrightarrow> round_double (fst p) = round_double (fst q) \<and>
                   round_double (snd p) = round_double (snd q)"
proof -
  let ?u = "to_double (round_double (fst p) - round_double (fst q))"
  let ?v = "to_double (round_double (snd p) - round_double (snd q))"
  have d: "d = to_double (sqrt (?u\<^sup>2 + ?v\<^sup>2))" using assms by (simp add: math_dist_Inr_iff)
  have "d = 0 \<longleftrightarrow> ?u = 0 \<and> ?v = 0"
    unfolding d by (rule double_norm_eq_0) (rule on_grid_to_double)+
  then show ?thesis by (simp add: to_double_diff_eq_0 round_double_grid)
qed

lemma math_dist_same:
  "\<bar>round_double (fst p)\<bar> < double_inf \<Longrightarrow> \<bar>round_double (snd p)\<bar> < double_inf \<Longrightarrow>
   math_dist p p = Inr 0"
  by (simp add: math_dist_Inr_iff)

lemma math_dist_small:
  assumes "\<bar>fst p\<bar> \<le> 2 ^ 53" "\<bar>fst q\<bar> \<le> 2 ^ 53" "\<bar>snd p\<bar> \<le> 2 ^ 53" "\<bar>snd q\<bar> \<le> 2 ^ 53"
  shows "\<exists>d. math_dist p q = Inr d \<and> 0 \<le> d"
proof -
  have "\<bar>round_double (fst p)\<bar> < double_inf" "\<bar>round_double (fst q)\<bar> < double_inf"
    "\<bar>round_double (snd p)\<bar> < double_inf" "\<bar>round_double (snd q)\<bar> < double_inf"
    by (rule small_below_inf, rule round_double_small, rule assms)+
  then obtain d where "math_dist p q = Inr d" by (simp add: math_dist_Inr_iff)
  then show ?thesis using math_dist_nonneg by blast
qed

lemma double_div_mono: "0 < d \<Longrightarrow> a \<le> b \<Longrightarrow> double_div a d \<le> double_div b d"
  by (simp add: double_div_def to_double_mono divide_right_mono)

lemma double_div_0 [simp]: "double_div 0 d = 0"
  by (simp add: double_div_def)

lemma py_truediv_conv:
  "\<bar>round_double a\<bar> < double_inf \<Longrightarrow> d \<noteq> 0 \<Longrightarrow>
   py_truediv a d = Inr (double_div (round_double a) d)"
  by (simp add: py_truediv_def py_float_def)

lemma py_truediv_zero_divisor:
  "py_truediv a 0 = (case py_float a of Inl err \<Rightarrow> Inl err | Inr a' \<Rightarrow> Inl ZeroDivisionError)"
  by (simp add: py_truediv_def split: sum.splits)

section \<open>The partition\<close>

lemma above_below_loop_filter:
  "above_below_loop cs s e (a, b) =
     (a @ filter (\<lambda>p. 0 < cross_product s e p) cs,
      b @ filter (\<lambda>p. \<not> 0 < cross_product s e p) cs)"
  by (induction cs arbitrary: a b) simp_all

lemma partition_filter:
  "find_coordinates_above_and_below_line cs s e =
     (filter (\<lambda>p. 0 < cross_product s e p) cs, filter (\<lambda>p. \<not> 0 < cross_product s e p) cs)"
  by (simp add: find_coordinates_above_and_below_line_def above_below_loop_filter)

lemma cross_product_same_start [simp]: "cross_product s s p = 0"
  by (simp add: cross_product_def)

lemma cross_product_at_end [simp]: "cross_product s e e = 0"
  by (simp add: cross_product_def)

lemma cross_product_at_start [simp]: "cross_product s e s = 0"
  by (simp add: cross_product_def)

section \<open>Maximum, index and the farthest point\<close>

lemma max_loop_mem: "max_loop key b xs \<in> set (b # xs)"
  by (induction xs arbitrary: b) auto

lemma max_loop_ge_best: "key b \<le> key (max_loop key b xs)"
proof (induction xs arbitrary: b)
  case Nil show ?case by simp
next
  case (Cons x xs)
  show ?case using Cons.IH[of x] Cons.IH[of b] by (auto simp: less_le_trans)
qed

lemma max_loop_ge: "x \<in> set xs \<Longrightarrow> key x \<le> key (max_loop key b xs)"
proof (induction xs arbitrary: b)
  case Nil then show ?case by simp
next
  case (Cons y ys)
  show ?case
  proof (cases "x = y")
    case True
    then show ?thesis using max_loop_ge_best[of key y ys] max_loop_ge_best[of key b ys]
      by auto
  next
    case False
    then show ?thesis using Cons by auto
  qed
qed

lemma max_loop_first:
  "find (\<lambda>p. key p = key (max_loop key b xs)) (b # xs) = Some (max_loop key b xs)"
proof (induction xs arbitrary: b)
  case Nil show ?case by simp
next
  case (Cons x xs)
  show ?case
  proof (cases "key b < key x")
    case True
    have "key x \<le> key (max_loop key x xs)" by (rule max_loop_ge_best)
    with True have "key b \<noteq> key (max_loop key x xs)" by auto
    then show ?thesis using True Cons.IH[of x] by simp
  next
    case False
    have ge: "key b \<le> key (max_loop key b xs)" by (rule max_loop_ge_best)
    show ?thesis
    proof (cases "key b = key (max_loop key b xs)")
      case True
      then show ?thesis using False Cons.IH[of b] by simp
    next
      case ne: False
      with ge False have "key x \<noteq> key (max_loop key b xs)" by auto
      then show ?thesis using False ne Cons.IH[of b] by simp
    qed
  qed
qed

lemma py_max_mem: "py_max key xs = Inr m \<Longrightarrow> m \<in> set xs"
  using max_loop_mem[of key] by (cases xs) (auto simp: py_max_def)

lemma py_max_ge: "py_max key xs = Inr m \<Longrightarrow> x \<in> set xs \<Longrightarrow> key x \<le> key m"
  using max_loop_ge_best[of key] max_loop_ge[of x _ key]
  by (cases xs) (auto simp: py_max_def)

lemma py_max_nonempty: "xs \<noteq> [] \<Longrightarrow> \<exists>m. py_max key xs = Inr m"
  by (cases xs) (simp_all add: py_max_def)

lemma py_index_Inr:
  "py_index xs v = Inr i \<Longrightarrow> i < length xs \<and> xs ! i = v \<and> (\<forall>j<i. xs ! j \<noteq> v)"
proof (induction xs arbitrary: i)
  case Nil
  then show ?case by simp
next
  case (Cons x xs)
  show ?case
  proof (cases "x = v")
    case True
    then show ?thesis using Cons.prems by simp
  next
    case False
    then obtain k where k: "py_index xs v = Inr k" and i: "i = Suc k"
      using Cons.prems by (auto split: sum.splits)
    from Cons.IH[OF k] have "k < length xs" "xs ! k = v" "\<forall>j<k. xs ! j \<noteq> v" by simp_all
    then show ?thesis using False i by (auto simp: nth_Cons' less_Suc_eq_0_disj)
  qed
qed

lemma py_index_first:
  "i < length xs \<Longrightarrow> xs ! i = v \<Longrightarrow> (\<forall>j<i. xs ! j \<noteq> v) \<Longrightarrow> py_index xs v = Inr i"
proof (induction xs arbitrary: i)
  case Nil
  then show ?case by simp
next
  case (Cons x xs)
  show ?case
  proof (cases i)
    case 0
    then show ?thesis using Cons.prems by simp
  next
    case (Suc k)
    have xv: "x \<noteq> v" using Cons.prems(3) Suc by auto
    have "py_index xs v = Inr k"
    proof (rule Cons.IH)
      show "k < length xs" using Cons.prems(1) Suc by simp
      show "xs ! k = v" using Cons.prems(2) Suc by simp
      show "\<forall>j<k. xs ! j \<noteq> v"
      proof (intro allI impI)
        fix j assume "j < k"
        then have "Suc j < i" using Suc by simp
        then have "(x # xs) ! Suc j \<noteq> v" using Cons.prems(3) by blast
        then show "xs ! j \<noteq> v" by simp
      qed
    qed
    then show ?thesis using xv Suc by simp
  qed
qed

lemma distances_loop_Inr:
  "distances_loop cs s e acc = Inr ds \<Longrightarrow>
   \<exists>ds'. ds = acc @ ds' \<and> length ds' = length cs \<and>
         (\<forall>j<length cs. distance_from_line_to_point s e (cs ! j) = Inr (ds' ! j))"
proof (induction cs arbitrary: acc)
  case Nil
  then show ?case by simp
next
  case (Cons c cs)
  from Cons.prems obtain d where d: "distance_from_line_to_point s e c = Inr d"
    and rest: "distances_loop cs s e (acc @ [d]) = Inr ds"
    by (auto split: sum.splits)
  from Cons.IH[OF rest] obtain ds' where ds': "ds = (acc @ [d]) @ ds'" "length ds' = length cs"
    "\<forall>j<length cs. distance_from_line_to_point s e (cs ! j) = Inr (ds' ! j)" by blast
  have "\<forall>j<length (c # cs). distance_from_line_to_point s e ((c # cs) ! j) = Inr ((d # ds') ! j)"
    using d ds'(3) by (auto simp: nth_Cons' )
  then show ?case using ds'(1,2) by (intro exI[of _ "d # ds'"]) simp
qed

lemma distances_loop_map:
  "(\<And>p. p \<in> set cs \<Longrightarrow> distance_from_line_to_point s e p = Inr (q p)) \<Longrightarrow>
   distances_loop cs s e acc = Inr (acc @ map q cs)"
  by (induction cs arbitrary: acc) simp_all

lemma farthest_point_from_distances:
  assumes ds: "distances_loop cs s e [] = Inr ds" and len: "length ds = length cs"
    and i: "i < length cs" and mx: "\<forall>j<length ds. ds ! j \<le> ds ! i"
    and first: "\<forall>j<i. ds ! j \<noteq> ds ! i"
  shows "farthest_point_from_line cs s e = Inr (cs ! i)"
proof -
  have ne: "ds \<noteq> []" using len i by auto
  then obtain m where m: "py_max (\<lambda>d. d) ds = Inr m" using py_max_nonempty by blast
  have "m \<in> set ds" using m by (rule py_max_mem)
  then obtain k where "k < length ds" "ds ! k = m" by (auto simp: in_set_conv_nth)
  then have "m \<le> ds ! i" using mx by auto
  moreover have "ds ! i \<le> m" using py_max_ge[OF m, of "ds ! i"] i len by simp
  ultimately have mi: "m = ds ! i" by simp
  have idx: "py_index ds m = Inr i"
    using i len first by (intro py_index_first) (simp_all add: mi)
  show ?thesis using i by (simp add: farthest_point_from_line_def ds m idx py_getitem_def)
qed

lemma farthest_point_from_line_InrE:
  assumes "farthest_point_from_line cs s e = Inr f"
  obtains ds i where "distances_loop cs s e [] = Inr ds" "length ds = length cs"
    "i < length cs" "f = cs ! i"
    "\<forall>j<length cs. distance_from_line_to_point s e (cs ! j) = Inr (ds ! j)"
    "\<forall>j<length cs. ds ! j \<le> ds ! i" "\<forall>j<i. ds ! j < ds ! i"
proof -
  from assms obtain ds m i where ds: "distances_loop cs s e [] = Inr ds"
    and m: "py_max (\<lambda>d. d) ds = Inr m" and idx: "py_index ds m = Inr i"
    and get: "py_getitem cs i = Inr f"
    by (auto simp: farthest_point_from_line_def split: sum.splits)
  from distances_loop_Inr[OF ds] have len: "length ds = length cs"
    and dist: "\<forall>j<length cs. distance_from_line_to_point s e (cs ! j) = Inr (ds ! j)"
    by auto
  from py_index_Inr[OF idx] have i: "i < length ds" "ds ! i = m" "\<forall>j<i. ds ! j \<noteq> m"
    by simp_all
  have f: "f = cs ! i" using get by (auto simp: py_getitem_def split: if_splits)
  have ge: "\<forall>j<length cs. ds ! j \<le> ds ! i"
    using py_max_ge[OF m] i(2) len by (auto simp: in_set_conv_nth)
  have lt: "\<forall>j<i. ds ! j < ds ! i"
  proof (intro allI impI)
    fix j assume j: "j < i"
    then have "ds ! j \<le> ds ! i" using ge i(1) len by simp
    moreover have "ds ! j \<noteq> ds ! i" using i(2,3) j by simp
    ultimately show "ds ! j < ds ! i" by simp
  qed
  show ?thesis using that[OF ds len _ f dist ge lt] i(1) len by simp
qed

lemma farthest_point_mem:
  "farthest_point_from_line cs s e = Inr f \<Longrightarrow> f \<in> set cs"
  by (erule farthest_point_from_line_InrE) simp

lemma max_loop_head: "(\<And>x. x \<in> set xs \<Longrightarrow> key x \<le> key b) \<Longrightarrow> max_loop key b xs = b"
proof (induction xs)
  case Nil
  show ?case by simp
next
  case (Cons a xs)
  have "\<not> key b < key a" using Cons.prems[of a] by simp
  then show ?case using Cons by simp
qed


text \<open>
  A first point of largest orientation is selected when the baseline has a non-zero
  length in binary64 and the orientations convert.
\<close>

lemma distance_conv:
  assumes "math_dist s e = Inr d" "d \<noteq> 0" "\<bar>round_double (cross_product s e p)\<bar> < double_inf"
  shows "distance_from_line_to_point s e p
           = Inr (double_div (round_double (cross_product s e p)) d)"
  using assms by (simp add: distance_from_line_to_point_def py_truediv_conv)

lemma farthest_point_head:
  assumes d: "math_dist s e = Inr d" "d \<noteq> 0"
    and small: "\<And>p. p \<in> set (c # cs) \<Longrightarrow> \<bar>round_double (cross_product s e p)\<bar> < double_inf"
    and mx: "\<And>p. p \<in> set cs \<Longrightarrow> cross_product s e p \<le> cross_product s e c"
  shows "farthest_point_from_line (c # cs) s e = Inr c"
proof -
  define q where "q = (\<lambda>p. double_div (round_double (cross_product s e p)) d)"
  have dpos: "0 < d" using math_dist_nonneg[OF d(1)] d(2) by simp
  have ds: "distances_loop (c # cs) s e [] = Inr ([] @ map q (c # cs))"
    unfolding q_def
    by (rule distances_loop_map) (rule distance_conv[OF d], rule small)
  have le: "q p \<le> q c" if "p \<in> set cs" for p
    unfolding q_def using dpos mx[OF that] by (intro double_div_mono round_double_mono)
  have "farthest_point_from_line (c # cs) s e = Inr ((c # cs) ! 0)"
  proof (rule farthest_point_from_distances)
    show "distances_loop (c # cs) s e [] = Inr (map q (c # cs))" using ds by simp
    show "length (map q (c # cs)) = length (c # cs)" by simp
    show "0 < length (c # cs)" by simp
    show "\<forall>j<length (map q (c # cs)). map q (c # cs) ! j \<le> map q (c # cs) ! 0"
    proof (intro allI impI)
      fix j assume "j < length (map q (c # cs))"
      then have "(c # cs) ! j \<in> set (c # cs)" by (intro nth_mem) simp
      then consider "(c # cs) ! j = c" | "(c # cs) ! j \<in> set cs" by auto
      then have "q ((c # cs) ! j) \<le> q c"
      proof cases
        case 1
        then show ?thesis by (simp only: order_refl)
      next
        case 2
        then show ?thesis by (rule le)
      qed
      then show "map q (c # cs) ! j \<le> map q (c # cs) ! 0"
        using \<open>j < length (map q (c # cs))\<close> by (simp add: nth_map del: list.map)
    qed
    show "\<forall>j<0. map q (c # cs) ! j \<noteq> map q (c # cs) ! 0" by simp
  qed
  then show ?thesis by simp
qed

section \<open>Termination of the recursive hull builder\<close>

lemma above_right_smaller:
  assumes "farthest_point_from_line cs s e = Inr f"
  shows "length (fst (find_coordinates_above_and_below_line cs s f)) < length cs"
proof -
  have "f \<in> set cs" using assms by (rule farthest_point_mem)
  moreover have "\<not> 0 < cross_product s f f" by simp
  ultimately show ?thesis
    unfolding partition_filter fst_conv by (intro length_filter_less)
qed

lemma above_left_smaller:
  assumes "farthest_point_from_line cs s e = Inr f"
  shows "length (fst (find_coordinates_above_and_below_line cs f e)) < length cs"
proof -
  have "f \<in> set cs" using assms by (rule farthest_point_mem)
  moreover have "\<not> 0 < cross_product f e f" by simp
  ultimately show ?thesis
    unfolding partition_filter fst_conv by (intro length_filter_less)
qed

termination find_hull
  by (relation "measure (\<lambda>(subset_of_coordinates, line_start, line_end). length subset_of_coordinates)")
     (simp_all add: above_right_smaller above_left_smaller)

section \<open>Facts about the recursive hull builder\<close>

declare find_hull.simps [simp del]

lemma find_hull_Nil [simp]: "find_hull [] s e = Inr []"
  by (simp add: find_hull.simps)

lemma find_hull_fail:
  "cs \<noteq> [] \<Longrightarrow> farthest_point_from_line cs s e = Inl err \<Longrightarrow> find_hull cs s e = Inl err"
  by (subst find_hull.simps) simp

lemma find_hull_step:
  "cs \<noteq> [] \<Longrightarrow> farthest_point_from_line cs s e = Inr f \<Longrightarrow>
   find_hull cs s e =
     (case find_hull (filter (\<lambda>p. 0 < cross_product s f p) cs) s f of
        Inl err \<Rightarrow> Inl err
      | Inr right_hull \<Rightarrow>
          (case find_hull (filter (\<lambda>p. 0 < cross_product f e p) cs) f e of
             Inl err \<Rightarrow> Inl err
           | Inr left_hull \<Rightarrow> Inr (f # right_hull @ left_hull)))"
  by (subst find_hull.simps) (simp add: partition_filter split: sum.splits)

lemma find_hull_cases [case_names empty fail step]:
  assumes "\<And>s e. P [] s e"
    and "\<And>cs s e err. cs \<noteq> [] \<Longrightarrow> farthest_point_from_line cs s e = Inl err \<Longrightarrow> P cs s e"
    and "\<And>cs s e f. cs \<noteq> [] \<Longrightarrow> farthest_point_from_line cs s e = Inr f \<Longrightarrow>
           P (filter (\<lambda>p. 0 < cross_product s f p) cs) s f \<Longrightarrow>
           P (filter (\<lambda>p. 0 < cross_product f e p) cs) f e \<Longrightarrow> P cs s e"
  shows "P cs s e"
proof -
  have "\<forall>cs s e. length cs = n \<longrightarrow> P cs s e" for n
  proof (induction n rule: less_induct)
    case (less n)
    have "P cs s e" if len: "length cs = n" for cs s e
    proof (cases "cs = []")
      case True
      show ?thesis unfolding True by (rule assms(1))
    next
      case ne: False
      show ?thesis
      proof (cases "farthest_point_from_line cs s e")
        case (Inl err)
        show ?thesis by (rule assms(2)[OF ne Inl])
      next
        case (Inr f)
        have r: "length (filter (\<lambda>p. 0 < cross_product s f p) cs) < n"
          using above_right_smaller[OF Inr] len by (simp add: partition_filter)
        have l: "length (filter (\<lambda>p. 0 < cross_product f e p) cs) < n"
          using above_left_smaller[OF Inr] len by (simp add: partition_filter)
        have pr: "P (filter (\<lambda>p. 0 < cross_product s f p) cs) s f"
          using less.IH[OF r] by blast
        have pl: "P (filter (\<lambda>p. 0 < cross_product f e p) cs) f e"
          using less.IH[OF l] by blast
        show ?thesis
          by (rule assms(3)[OF ne Inr pr pl])
      qed
    qed
    then show ?case by blast
  qed
  then show ?thesis by blast
qed

lemma find_hull_subset: "find_hull cs s e = Inr h \<Longrightarrow> set h \<subseteq> set cs"
proof (induction cs s e arbitrary: h rule: find_hull_cases)
  case (empty s e)
  then show ?case by simp
next
  case (fail cs s e err)
  then show ?case by (simp add: find_hull_fail)
next
  case (step cs s e f)
  from step.prems obtain r l where
    r: "find_hull (filter (\<lambda>p. 0 < cross_product s f p) cs) s f = Inr r" and
    l: "find_hull (filter (\<lambda>p. 0 < cross_product f e p) cs) f e = Inr l" and
    h: "h = f # r @ l"
    by (auto simp: find_hull_step[OF step.hyps] split: sum.splits)
  have "f \<in> set cs" using step.hyps(2) by (rule farthest_point_mem)
  moreover have "set r \<subseteq> set cs" using step.IH(1)[OF r] by auto
  moreover have "set l \<subseteq> set cs" using step.IH(2)[OF l] by auto
  ultimately show ?case by (simp add: h)
qed


lemma find_hull_degenerate:
  assumes "cs \<noteq> []" "\<bar>round_double (fst s)\<bar> < double_inf" "\<bar>round_double (snd s)\<bar> < double_inf"
  shows "find_hull cs s s = Inl ZeroDivisionError"
proof -
  obtain c rest where cs: "cs = c # rest" using assms(1) by (cases cs) auto
  have "distance_from_line_to_point s s c = Inl ZeroDivisionError"
    using assms(2,3) by (simp add: distance_from_line_to_point_def math_dist_same py_truediv_def)
  then have "farthest_point_from_line cs s s = Inl ZeroDivisionError"
    by (simp add: farthest_point_from_line_def cs)
  with assms(1) show ?thesis by (rule find_hull_fail)
qed

section \<open>Extremal points and the orchestrator\<close>

lemma min_loop_mem: "min_loop key b xs \<in> set (b # xs)"
  by (induction xs arbitrary: b) auto

lemma min_loop_le_best: "key (min_loop key b xs) \<le> key b"
proof (induction xs arbitrary: b)
  case Nil show ?case by simp
next
  case (Cons x xs)
  show ?case using Cons.IH[of x] Cons.IH[of b] by auto
qed

lemma min_loop_le: "x \<in> set xs \<Longrightarrow> key (min_loop key b xs) \<le> key x"
proof (induction xs arbitrary: b)
  case Nil then show ?case by simp
next
  case (Cons y ys)
  show ?case
  proof (cases "x = y")
    case True
    then show ?thesis using min_loop_le_best[of key y ys] min_loop_le_best[of key b ys]
      by auto
  next
    case False
    then show ?thesis using Cons by auto
  qed
qed

lemma min_loop_first:
  "find (\<lambda>p. key p = key (min_loop key b xs)) (b # xs) = Some (min_loop key b xs)"
proof (induction xs arbitrary: b)
  case Nil show ?case by simp
next
  case (Cons x xs)
  show ?case
  proof (cases "key x < key b")
    case True
    have "key (min_loop key x xs) \<le> key x" by (rule min_loop_le_best)
    with True have "key b \<noteq> key (min_loop key x xs)" by auto
    then show ?thesis using True Cons.IH[of x] by simp
  next
    case False
    have ge: "key (min_loop key b xs) \<le> key b" by (rule min_loop_le_best)
    show ?thesis
    proof (cases "key b = key (min_loop key b xs)")
      case True
      then show ?thesis using False Cons.IH[of b] by simp
    next
      case ne: False
      with ge False have "key x \<noteq> key (min_loop key b xs)" by auto
      then show ?thesis using False ne Cons.IH[of b] by simp
    qed
  qed
qed

lemma find_leftmost_and_rightmost_Nil: "find_leftmost_and_rightmost [] = Inl ValueError"
  by (simp add: find_leftmost_and_rightmost_def py_min_def)

lemma find_leftmost_and_rightmost_Cons:
  "find_leftmost_and_rightmost (c # cs) = Inr (min_loop fst c cs, max_loop fst c cs)"
  by (simp add: find_leftmost_and_rightmost_def py_min_def py_max_def)

lemma leftmost_props:
  assumes "find_leftmost_and_rightmost cs = Inr (l, r)"
  shows "l \<in> set cs" and "p \<in> set cs \<Longrightarrow> fst l \<le> fst p"
    and "find (\<lambda>p. fst p = fst l) cs = Some l"
proof -
  obtain c rest where cs: "cs = c # rest" and l: "l = min_loop fst c rest"
    using assms
    by (cases cs) (auto simp: find_leftmost_and_rightmost_Nil find_leftmost_and_rightmost_Cons)
  show "l \<in> set cs" unfolding cs l by (rule min_loop_mem)
  show "fst l \<le> fst p" if "p \<in> set cs"
    using that min_loop_le_best[of fst c rest] min_loop_le[of p rest fst c] by (auto simp: cs l)
  show "find (\<lambda>p. fst p = fst l) cs = Some l" unfolding cs l by (rule min_loop_first)
qed

lemma rightmost_props:
  assumes "find_leftmost_and_rightmost cs = Inr (l, r)"
  shows "r \<in> set cs" and "p \<in> set cs \<Longrightarrow> fst p \<le> fst r"
    and "find (\<lambda>p. fst p = fst r) cs = Some r"
proof -
  obtain c rest where cs: "cs = c # rest" and r: "r = max_loop fst c rest"
    using assms
    by (cases cs) (auto simp: find_leftmost_and_rightmost_Nil find_leftmost_and_rightmost_Cons)
  show "r \<in> set cs" unfolding cs r by (rule max_loop_mem)
  show "fst p \<le> fst r" if "p \<in> set cs"
    using that max_loop_ge_best[of fst c rest] max_loop_ge[of p rest fst c] by (auto simp: cs r)
  show "find (\<lambda>p. fst p = fst r) cs = Some r" unfolding cs r by (rule max_loop_first)
qed

lemma find_all_same:
  "xs \<noteq> [] \<Longrightarrow> (\<And>x. x \<in> set xs \<Longrightarrow> P x) \<Longrightarrow> find P xs = Some (hd xs)"
  by (cases xs) auto

lemma leftmost_rightmost_distinct:
  assumes lr: "find_leftmost_and_rightmost cs = Inr (l, r)" and ne: "l \<noteq> r"
  shows "fst l < fst r"
proof (rule ccontr)
  assume "\<not> fst l < fst r"
  moreover have "fst l \<le> fst r" using leftmost_props(2)[OF lr] rightmost_props(1)[OF lr] by blast
  ultimately have eq: "fst l = fst r" by simp
  have all: "fst p = fst l" if "p \<in> set cs" for p
    using leftmost_props(2)[OF lr that] rightmost_props(2)[OF lr that] eq by simp
  have cs: "cs \<noteq> []" using leftmost_props(1)[OF lr] by auto
  have "find (\<lambda>p. fst p = fst l) cs = Some (hd cs)"
    using cs all by (rule find_all_same)
  moreover have "find (\<lambda>p. fst p = fst r) cs = Some (hd cs)"
    using cs all eq by (intro find_all_same) auto
  ultimately have "l = hd cs" "r = hd cs"
    using leftmost_props(3)[OF lr] rightmost_props(3)[OF lr] by simp_all
  with ne show False by simp
qed

lemma quick_hull_Nil: "quick_hull [] = Inl ValueError"
  by (simp add: quick_hull_def find_leftmost_and_rightmost_Nil)

lemma quick_hull_degenerate:
  assumes lr: "find_leftmost_and_rightmost cs = Inr (l, l)"
    and conv: "\<bar>round_double (fst l)\<bar> < double_inf" "\<bar>round_double (snd l)\<bar> < double_inf"
  shows "quick_hull cs = Inl ZeroDivisionError"
proof -
  have "l \<in> set cs" using leftmost_props(1)[OF lr] .
  then have below: "filter (\<lambda>p. \<not> 0 < cross_product l l p) cs \<noteq> []"
    by (auto simp: filter_empty_conv)
  show ?thesis
    using find_hull_degenerate[OF below conv]
    by (simp add: quick_hull_def lr partition_filter)
qed

lemma quick_hull_InrE:
  assumes "quick_hull cs = Inr h"
  obtains l r a b where "find_leftmost_and_rightmost cs = Inr (l, r)"
    "find_hull (filter (\<lambda>p. 0 < cross_product l r p) cs) l r = Inr a"
    "find_hull (filter (\<lambda>p. \<not> 0 < cross_product l r p) cs) r l = Inr b"
    "h = l # a @ b @ [r]"
  using assms by (auto simp: quick_hull_def partition_filter split: sum.splits prod.splits)

lemma quick_hull_subset:
  assumes "quick_hull cs = Inr h" shows "set h \<subseteq> set cs"
proof -
  from assms obtain l r a b where lr: "find_leftmost_and_rightmost cs = Inr (l, r)"
    and a: "find_hull (filter (\<lambda>p. 0 < cross_product l r p) cs) l r = Inr a"
    and b: "find_hull (filter (\<lambda>p. \<not> 0 < cross_product l r p) cs) r l = Inr b"
    and h: "h = l # a @ b @ [r]"
    by (rule quick_hull_InrE)
  have "l \<in> set cs" "r \<in> set cs" using leftmost_props(1)[OF lr] rightmost_props(1)[OF lr] .
  moreover have "set a \<subseteq> set cs" using find_hull_subset[OF a] by auto
  moreover have "set b \<subseteq> set cs" using find_hull_subset[OF b] by auto
  ultimately show ?thesis by (simp add: h)
qed

section \<open>Evaluation on concrete inputs\<close>

lemma find_hull_Cons:
  "find_hull (c # cs) s e =
     (case farthest_point_from_line (c # cs) s e of
        Inl err \<Rightarrow> Inl err
      | Inr f \<Rightarrow>
          (case find_hull (filter (\<lambda>p. 0 < cross_product s f p) (c # cs)) s f of
             Inl err \<Rightarrow> Inl err
           | Inr right_hull \<Rightarrow>
               (case find_hull (filter (\<lambda>p. 0 < cross_product f e p) (c # cs)) f e of
                  Inl err \<Rightarrow> Inl err
                | Inr left_hull \<Rightarrow> Inr (f # right_hull @ left_hull))))"
  by (subst find_hull.simps) (simp add: partition_filter split: sum.splits)

lemma find_hull_halts_all: "find_hull_halts cs s e"
proof (induction cs s e rule: find_hull_cases)
  case (empty s e)
  show ?case by (rule halts_empty)
next
  case (fail cs s e err)
  then show ?case by (rule halts_raise)
next
  case (step cs s e f)
  show ?case
    using step.hyps step.IH by (intro halts_step[of cs s e f]) (simp_all add: partition_filter)
qed

lemma to_double_numeral [simp]:
  "(numeral w :: int) \<le> 2 ^ 53 \<Longrightarrow> to_double (numeral w) = numeral w"
proof -
  assume a: "(numeral w :: int) \<le> 2 ^ 53"
  then have "(of_int (numeral w) :: real) \<le> of_int (2 ^ 53)" by (simp only: of_int_le_iff)
  then have "\<bar>numeral w :: real\<bar> \<le> 2 ^ 53" by simp
  then have "\<bar>numeral w :: real\<bar> < double_inf" by (rule small_below_inf)
  moreover have "round_double (numeral w) = numeral w" using a by (rule round_double_numeral)
  ultimately show ?thesis by (intro to_double_fix)
qed

lemma to_double_minus [simp]: "to_double (- x) = - to_double x"
  using double_inf_pos by (auto simp: to_double_def Let_def simp del: double_inf_pos)

lemma to_double_1 [simp]: "to_double 1 = 1"
  by (rule to_double_fix) (simp_all add: double_inf_def)

lemma abs_half_le: "0 \<le> x \<Longrightarrow> x < c \<Longrightarrow> \<bar>x / 2\<bar> \<le> (c::real)"
  by simp

lemma to_double_half:
  "(numeral w :: int) < 2 ^ 53 \<Longrightarrow> to_double (numeral w / 2) = numeral w / 2"
proof -
  assume a: "(numeral w :: int) < 2 ^ 53"
  then have "(of_int (numeral w) :: real) < of_int (2 ^ 53)" by (simp only: of_int_less_iff)
  then have "(numeral w :: real) < 2 ^ 53" by (simp only: of_int_numeral of_int_power)
  then have "\<bar>numeral w / 2 :: real\<bar> \<le> 2 ^ 53" by (intro abs_half_le) simp_all
  then have "\<bar>numeral w / 2 :: real\<bar> < double_inf" by (rule small_below_inf)
  moreover have "round_double (numeral w / 2) = numeral w / 2" using a by (rule round_double_half)
  ultimately show ?thesis by (intro to_double_fix)
qed

lemma farthest_point_head_small:
  assumes "\<bar>fst s\<bar> \<le> 2 ^ 53" "\<bar>fst e\<bar> \<le> 2 ^ 53" "\<bar>snd s\<bar> \<le> 2 ^ 53" "\<bar>snd e\<bar> \<le> 2 ^ 53"
    and ne: "round_double (fst s) \<noteq> round_double (fst e) \<or>
             round_double (snd s) \<noteq> round_double (snd e)"
    and small: "\<forall>p \<in> set (c # cs). \<bar>cross_product s e p\<bar> \<le> 2 ^ 53"
    and mx: "\<forall>p \<in> set cs. cross_product s e p \<le> cross_product s e c"
  shows "farthest_point_from_line (c # cs) s e = Inr c"
proof -
  obtain d where d: "math_dist s e = Inr d" using math_dist_small[OF assms(1-4)] by blast
  have "d \<noteq> 0" using math_dist_eq_0_iff[OF d] ne by blast
  moreover have "\<bar>round_double (cross_product s e p)\<bar> < double_inf" if "p \<in> set (c # cs)" for p
    using small that by (intro small_below_inf round_double_small) blast
  ultimately show ?thesis using d mx by (intro farthest_point_head[of s e d]) blast+
qed

lemmas eval_simps = quick_hull_def find_leftmost_and_rightmost_Cons partition_filter
  find_hull_Cons farthest_point_head_small cross_product_def round_double_numeral

lemma quick_hull_square:
  "quick_hull [(0,0),(0,10),(10,0),(10,10),(5,5)] = Inr [(0,0),(0,10),(10,10),(0,0),(10,0)]"
  by (simp add: eval_simps)

lemma quick_hull_triangle:
  "quick_hull [(0,0),(4,0),(2,4)] = Inr [(0,0),(2,4),(0,0),(4,0)]"
  by (simp add: eval_simps)

lemma farthest_point_example:
  "farthest_point_from_line [(0,10),(10,10),(5,5)] (0,0) (10,0) = Inr (0,10)"
  by (simp add: eval_simps)

lemma find_hull_example:
  "find_hull [(0,10),(10,10),(5,5)] (0,0) (10,0) = Inr [(0,10),(10,10)]"
  by (simp add: eval_simps)



lemma farthest_point_at:
  assumes d: "math_dist s e = Inr d" "d \<noteq> 0"
    and small: "\<And>p. p \<in> set cs \<Longrightarrow> \<bar>round_double (cross_product s e p)\<bar> < double_inf"
    and i: "i < length cs"
    and mx: "\<And>j. j < length cs \<Longrightarrow>
               double_div (round_double (cross_product s e (cs ! j))) d
                 \<le> double_div (round_double (cross_product s e (cs ! i))) d"
    and first: "\<And>j. j < i \<Longrightarrow>
               double_div (round_double (cross_product s e (cs ! j))) d
                 \<noteq> double_div (round_double (cross_product s e (cs ! i))) d"
  shows "farthest_point_from_line cs s e = Inr (cs ! i)"
proof -
  define q where "q = (\<lambda>p. double_div (round_double (cross_product s e p)) d)"
  have ds: "distances_loop cs s e [] = Inr ([] @ map q cs)"
    unfolding q_def by (rule distances_loop_map) (rule distance_conv[OF d], rule small)
  show ?thesis
  proof (rule farthest_point_from_distances)
    show "distances_loop cs s e [] = Inr (map q cs)" using ds by simp
    show "length (map q cs) = length cs" by simp
    show "i < length cs" by (rule i)
    show "\<forall>j<length (map q cs). map q cs ! j \<le> map q cs ! i"
      using mx i by (simp add: q_def)
    show "\<forall>j<i. map q cs ! j \<noteq> map q cs ! i"
      using first i by (simp add: q_def)
  qed
qed

text \<open>The baseline from [0,0] to [10,5] has a length between 11 and 12.\<close>

lemma sqrt_125_bounds: "11 \<le> sqrt 125" "sqrt 125 \<le> 12"
  by (rule real_le_rsqrt, simp) (rule real_le_lsqrt, simp_all)

lemma to_double_sqrt_125: "11 \<le> to_double (sqrt 125)" "to_double (sqrt 125) \<le> 12"
  using to_double_mono[OF sqrt_125_bounds(1)] to_double_mono[OF sqrt_125_bounds(2)]
  by simp_all

lemma math_dist_10_5:
  "math_dist (0,0) (10,5) = Inr (to_double (sqrt 125))"
  "math_dist (10,5) (0,0) = Inr (to_double (sqrt 125))"
  by (simp_all add: math_dist_def)

lemma double_div_upper:
  assumes "0 < lo" "lo \<le> d" "d < double_inf" "0 \<le> a" "a / lo \<le> t" "to_double t = t"
  shows "double_div a d \<le> t"
proof -
  have "a / d \<le> a / lo" using assms by (intro divide_left_mono) simp_all
  then have "to_double (a / d) \<le> to_double t" using assms(5) by (intro to_double_mono) simp
  then show ?thesis using assms by (simp add: double_div_def)
qed

lemma double_div_lower:
  assumes "0 < d" "d \<le> hi" "d < double_inf" "0 \<le> a" "t \<le> a / hi" "to_double t = t"
  shows "t \<le> double_div a d"
proof -
  have "a / hi \<le> a / d" using assms by (intro divide_left_mono) simp_all
  then have "to_double t \<le> to_double (a / d)" using assms(5) by (intro to_double_mono) simp
  then show ?thesis using assms by (simp add: double_div_def)
qed

lemma quotients_10_5:
  fixes d :: real
  assumes "d = to_double (sqrt 125)"
  shows "d \<noteq> 0" "double_div 25 d < double_div 40 d" "double_div 40 d \<le> double_div 40 d"
    "0 < double_div 50 d"
proof -
  have b: "11 \<le> d" "d \<le> 12" using to_double_sqrt_125 assms by simp_all
  have inf: "d < double_inf" using b(2) small_below_inf[of d] b(1) by simp
  show "d \<noteq> 0" using b by simp
  have "double_div 25 d \<le> 5 / 2"
    using b inf by (intro double_div_upper[of 11]) (simp_all add: to_double_half)
  moreover have "3 \<le> double_div 40 d"
    using b inf by (intro double_div_lower[of _ 12]) simp_all
  ultimately show "double_div 25 d < double_div 40 d" by simp
  show "double_div 40 d \<le> double_div 40 d" by simp
  have "4 \<le> double_div 50 d"
    using b inf by (intro double_div_lower[of _ 12]) simp_all
  then show "0 < double_div 50 d" by simp
qed

lemma farthest_second_run_above:
  "farthest_point_from_line [(5,5),(2,5)] (0,0) (10,5) = Inr (2,5)"
proof -
  note q = quotients_10_5[OF refl]
  have "farthest_point_from_line [(5,5),(2,5)] (0,0) (10,5) = Inr ([(5,5),(2,5)] ! 1)"
  proof (rule farthest_point_at[OF math_dist_10_5(1) q(1)])
    fix p :: point assume "p \<in> set [(5,5),(2,5)]"
    then show "\<bar>round_double (cross_product (0,0) (10,5) p)\<bar> < double_inf"
      by (intro small_below_inf round_double_small) (auto simp: cross_product_def)
  next
    show "1 < length [(5,5),(2,5::real)]" by simp
  next
    fix j assume "j < length [(5,5),(2,5::real)]"
    then have "j = 0 \<or> j = 1" by auto
    then show "double_div (round_double (cross_product (0,0) (10,5) ([(5,5),(2,5)] ! j)))
                 (to_double (sqrt 125))
               \<le> double_div (round_double (cross_product (0,0) (10,5) ([(5,5),(2,5)] ! 1)))
                 (to_double (sqrt 125))"
      using q(2) by (auto simp: cross_product_def round_double_numeral)
  next
    fix j :: nat assume "j < 1"
    then have "j = 0" by simp
    then show "double_div (round_double (cross_product (0,0) (10,5) ([(5,5),(2,5)] ! j)))
                 (to_double (sqrt 125))
               \<noteq> double_div (round_double (cross_product (0,0) (10,5) ([(5,5),(2,5)] ! 1)))
                 (to_double (sqrt 125))"
      using q(2) by (simp add: cross_product_def round_double_numeral)
  qed
  then show ?thesis by simp
qed



lemma floor_log2_eq:
  "0 < x \<Longrightarrow> pow2 k \<le> x \<Longrightarrow> x < pow2 (k + 1) \<Longrightarrow> \<lfloor>log 2 x\<rfloor> = k"
  using floor_log_eq_powr_iff[of x 2 k] by (simp add: pow2_def)

lemma round_double_tie: "round_double (2 ^ 53 + 1) = 2 ^ 53"
proof -
  define x :: real where "x = 2 ^ 53 + 1"
  have pos: "0 < x" by (simp add: x_def)
  have "\<lfloor>log 2 x\<rfloor> = 53"
    using pow2_nat[of 53] pow2_nat[of 54] pos by (intro floor_log2_eq) (simp_all add: x_def)
  then have e: "double_exponent x = 1" using pos by (simp add: double_exponent_def)
  have p: "pow2 1 = 2" using pow2_nat[of 1] by simp
  have "round_mag x = of_int (round_half_even (x / 2)) * 2"
    by (simp only: round_mag_def e p)
  also have "round_half_even (x / 2) = 2 ^ 52" by (simp add: round_half_even_def x_def)
  finally have "round_mag x = 2 ^ 53" by simp
  then have "round_double x = 2 ^ 53" using pos by (simp add: round_double_def)
  then show ?thesis by (simp only: x_def)
qed







lemma round_double_tie_numeral: "round_double 9007199254740993 = 9007199254740992"
  using round_double_tie by simp

lemma math_dist_nonzero:
  assumes "\<bar>round_double (fst p)\<bar> < double_inf" "\<bar>round_double (fst q)\<bar> < double_inf"
    "\<bar>round_double (snd p)\<bar> < double_inf" "\<bar>round_double (snd q)\<bar> < double_inf"
    "round_double (fst p) \<noteq> round_double (fst q) \<or> round_double (snd p) \<noteq> round_double (snd q)"
  shows "\<exists>d. math_dist p q = Inr d \<and> d \<noteq> 0"
proof -
  obtain d where d: "math_dist p q = Inr d" using assms(1-4) by (simp add: math_dist_Inr_iff)
  then show ?thesis using math_dist_eq_0_iff[OF d] assms(5) by blast
qed

lemma farthest_point_head_conv:
  assumes "\<bar>round_double (fst s)\<bar> < double_inf" "\<bar>round_double (fst e)\<bar> < double_inf"
    "\<bar>round_double (snd s)\<bar> < double_inf" "\<bar>round_double (snd e)\<bar> < double_inf"
    and ne: "round_double (fst s) \<noteq> round_double (fst e) \<or>
             round_double (snd s) \<noteq> round_double (snd e)"
    and small: "\<forall>p \<in> set (c # cs). \<bar>round_double (cross_product s e p)\<bar> < double_inf"
    and mx: "\<forall>p \<in> set cs. cross_product s e p \<le> cross_product s e c"
  shows "farthest_point_from_line (c # cs) s e = Inr c"
proof -
  obtain d where d: "math_dist s e = Inr d" "d \<noteq> 0"
    using math_dist_nonzero[OF assms(1-5)] by blast
  show ?thesis using small mx by (intro farthest_point_head[OF d]) blast+
qed

lemma below_inf_numeral:
  "(numeral w :: int) \<le> 2 ^ 53 \<Longrightarrow> \<bar>numeral w :: real\<bar> < double_inf"
proof -
  assume a: "(numeral w :: int) \<le> 2 ^ 53"
  then have "(of_int (numeral w) :: real) \<le> of_int (2 ^ 53)" by (simp only: of_int_le_iff)
  then have "\<bar>numeral w :: real\<bar> \<le> 2 ^ 53" by simp
  then show ?thesis by (rule small_below_inf)
qed

lemma numeral_below_inf:
  "(numeral w :: int) \<le> 2 ^ 53 \<Longrightarrow> (numeral w :: real) < double_inf"
  using below_inf_numeral[of w] by simp

lemma one_below_inf [simp]: "1 < double_inf"
  by (simp add: double_inf_def)

lemma quick_hull_large_first:
  "quick_hull [(9007199254740993, - 1), (9007199254740993, 9007199254740992),
               (9007199254740992, 9007199254740992)]
   = Inr [(9007199254740992, 9007199254740992), (9007199254740993, 9007199254740992),
          (9007199254740993, - 1), (9007199254740993, - 1)]"
  by (simp add: quick_hull_def find_leftmost_and_rightmost_Cons partition_filter
        find_hull_Cons farthest_point_head_conv cross_product_def round_double_numeral
        round_double_tie_numeral numeral_below_inf)

lemma quick_hull_large_again:
  "quick_hull [(9007199254740992, 9007199254740992), (9007199254740993, 9007199254740992),
               (9007199254740993, - 1), (9007199254740993, - 1)]
   = Inl ZeroDivisionError"
proof -
  have d: "math_dist (9007199254740993, 9007199254740992) (9007199254740992, 9007199254740992)
             = Inr 0"
    by (simp add: math_dist_Inr_iff round_double_numeral round_double_tie_numeral
          numeral_below_inf)
  have "distance_from_line_to_point (9007199254740993, 9007199254740992)
          (9007199254740992, 9007199254740992) (9007199254740992, 9007199254740992)
        = Inl ZeroDivisionError"
    by (simp add: distance_from_line_to_point_def d py_truediv_def)
  then have "farthest_point_from_line
          [(9007199254740992, 9007199254740992), (9007199254740993, 9007199254740992),
           (9007199254740993, - 1), (9007199254740993, - 1)]
          (9007199254740993, 9007199254740992) (9007199254740992, 9007199254740992)
        = Inl ZeroDivisionError"
    by (simp add: farthest_point_from_line_def)
  then show ?thesis
    by (simp add: quick_hull_def find_leftmost_and_rightmost_Cons partition_filter
          cross_product_def find_hull_Cons)
qed

section \<open>The claims of the specification\<close>

lemma round_double_below_inf: "\<bar>x\<bar> \<le> 2 ^ 60 \<Longrightarrow> \<bar>round_double x\<bar> < double_inf"
proof -
  assume a: "\<bar>x\<bar> \<le> 2 ^ 60"
  have "round_double (of_int 1 * pow2 60) = of_int 1 * pow2 60"
    by (rule round_double_dyadic) simp_all
  then have f: "round_double (2 ^ 60) = 2 ^ 60" using pow2_nat[of 60] by simp
  have "round_double x \<le> round_double (2 ^ 60)" using a by (intro round_double_mono) simp
  moreover have "round_double (- (2 ^ 60)) \<le> round_double x"
    using a by (intro round_double_mono) simp
  ultimately have "\<bar>round_double x\<bar> \<le> 2 ^ 60" using f by (simp add: abs_le_iff)
  moreover have "(2::real) ^ 60 < 2 ^ 1024" by (intro power_strict_increasing) simp_all
  ultimately show ?thesis by (simp add: double_inf_def)
qed

text \<open>
  Claim C1.  Whenever \<^verbatim>\<open>quick_hull\<close> returns normally, every point of the returned
  sequence is an element of the input sequence: no coordinates are fabricated.
\<close>
theorem quick_hull_points_from_input:
  "quick_hull coordinates = Inr h \<Longrightarrow> set h \<subseteq> set coordinates"
  by (rule quick_hull_subset)

theorem quick_hull_points_from_input_witness:
  "quick_hull [(0,0),(4,0),(2,4)] = Inr [(0,0),(2,4),(0,0),(4,0)] \<and>
   set [(0,0),(2,4),(0,0),(4,0)] \<subseteq> set ([(0,0),(4,0),(2,4)] :: point list)"
proof -
  have ev: "quick_hull [(0,0),(4,0),(2,4)] = Inr [(0,0),(2,4),(0,0),(4,0)]"
    by (rule quick_hull_triangle)
  from quick_hull_points_from_input[OF ev] ev show ?thesis by blast
qed

text \<open>
  Three points that are not collinear need not make \<^verbatim>\<open>quick_hull\<close> return: the
  leftmost and rightmost points of \<^verbatim>\<open>[[2**53,0],[2**53+1,0],[2**53,1]]\<close> differ, but
  their binary64 distance is zero.
\<close>

lemma quick_hull_noncollinear_can_fail:
  "cross_product (9007199254740992, 0) (9007199254740993, 0) (9007199254740992, 1) = 1 \<and>
   quick_hull [(9007199254740992, 0), (9007199254740993, 0), (9007199254740992, 1)]
     = Inl ZeroDivisionError"
proof -
  have d: "math_dist (9007199254740992, 0) (9007199254740993, 0) = Inr 0"
    by (simp add: math_dist_Inr_iff round_double_numeral round_double_tie_numeral
          numeral_below_inf)
  have "distance_from_line_to_point (9007199254740992, 0) (9007199254740993, 0)
          (9007199254740992, 1) = Inl ZeroDivisionError"
    by (simp add: distance_from_line_to_point_def d py_truediv_def cross_product_def)
  then have "farthest_point_from_line [(9007199254740992, 1)]
          (9007199254740992, 0) (9007199254740993, 0) = Inl ZeroDivisionError"
    by (simp add: farthest_point_from_line_def)
  then show ?thesis
    by (simp add: quick_hull_def find_leftmost_and_rightmost_Cons partition_filter
          cross_product_def find_hull_Cons)
qed

text \<open>
  Claim C2 states the structure of \<^verbatim>\<open>find_hull\<close> for every subset and baseline.  On
  a non-empty subset and a baseline whose start equals its end no farthest point is
  selected and nothing is returned: the first distance divides by zero.
\<close>
theorem find_hull_zero_length_baseline:
  "[(1,1)] \<noteq> ([] :: point list) \<and>
   farthest_point_from_line [(1,1)] (0,0) (0,0) = Inl ZeroDivisionError \<and>
   find_hull [(1,1)] (0,0) (0,0) = Inl ZeroDivisionError"
proof -
  have "distance_from_line_to_point (0,0) (0,0) (1,1) = Inl ZeroDivisionError"
    by (simp add: distance_from_line_to_point_def math_dist_same py_truediv_def)
  then have f: "farthest_point_from_line [(1,1)] (0,0) (0,0) = Inl ZeroDivisionError"
    by (simp add: farthest_point_from_line_def)
  then have "find_hull [(1,1)] (0,0) (0,0) = Inl ZeroDivisionError"
    by (intro find_hull_fail) simp_all
  with f show ?thesis by simp
qed

text \<open>
  Claim C2, as amended.  \<^verbatim>\<open>find_hull\<close> returns the empty sequence on the empty
  subset.  On a non-empty subset it fails with the error of the farthest-point selection
  when that selection fails.  Otherwise the selected point \<open>f\<close> is the first point of
  the subset whose computed distance from the baseline is the largest; the whole subset
  (with \<open>f\<close> still in it) is partitioned against the baselines from the start to \<open>f\<close>
  and from \<open>f\<close> to the end, the positive-side output of each is kept, and
  \<^verbatim>\<open>find_hull\<close> calls itself on these two lists with their baselines.  If the first
  call fails, or the first returns and the second fails, \<^verbatim>\<open>find_hull\<close> fails with
  that error; if both return, the result is \<open>[f]\<close> followed by the result of the first
  call and then of the second.
\<close>
theorem find_hull_structure:
  "find_hull [] line_start line_end = Inr [] \<and>
   (subset_of_coordinates \<noteq> [] \<longrightarrow>
     (\<forall>err. farthest_point_from_line subset_of_coordinates line_start line_end = Inl err \<longrightarrow>
        find_hull subset_of_coordinates line_start line_end = Inl err) \<and>
     (\<forall>f. farthest_point_from_line subset_of_coordinates line_start line_end = Inr f \<longrightarrow>
        (\<exists>distances i.
           distances_loop subset_of_coordinates line_start line_end [] = Inr distances \<and>
           length distances = length subset_of_coordinates \<and>
           (\<forall>j<length subset_of_coordinates.
              distance_from_line_to_point line_start line_end (subset_of_coordinates ! j)
                = Inr (distances ! j)) \<and>
           i < length subset_of_coordinates \<and> f = subset_of_coordinates ! i \<and>
           (\<forall>j<length subset_of_coordinates. distances ! j \<le> distances ! i) \<and>
           (\<forall>j<i. distances ! j < distances ! i)) \<and>
        (\<forall>err.
           find_hull (fst (find_coordinates_above_and_below_line subset_of_coordinates line_start f))
             line_start f = Inl err \<longrightarrow>
           find_hull subset_of_coordinates line_start line_end = Inl err) \<and>
        (\<forall>right_hull.
           find_hull (fst (find_coordinates_above_and_below_line subset_of_coordinates line_start f))
             line_start f = Inr right_hull \<longrightarrow>
           (\<forall>err.
              find_hull (fst (find_coordinates_above_and_below_line subset_of_coordinates f line_end))
                f line_end = Inl err \<longrightarrow>
              find_hull subset_of_coordinates line_start line_end = Inl err) \<and>
           (\<forall>left_hull.
              find_hull (fst (find_coordinates_above_and_below_line subset_of_coordinates f line_end))
                f line_end = Inr left_hull \<longrightarrow>
              find_hull subset_of_coordinates line_start line_end
                = Inr ([f] @ right_hull @ left_hull)))))"
proof (intro conjI impI allI)
  show "find_hull [] line_start line_end = Inr []" by simp
next
  fix err
  assume "subset_of_coordinates \<noteq> []"
    "farthest_point_from_line subset_of_coordinates line_start line_end = Inl err"
  then show "find_hull subset_of_coordinates line_start line_end = Inl err"
    by (rule find_hull_fail)
next
  fix f
  assume f: "farthest_point_from_line subset_of_coordinates line_start line_end = Inr f"
  show "\<exists>distances i.
           distances_loop subset_of_coordinates line_start line_end [] = Inr distances \<and>
           length distances = length subset_of_coordinates \<and>
           (\<forall>j<length subset_of_coordinates.
              distance_from_line_to_point line_start line_end (subset_of_coordinates ! j)
                = Inr (distances ! j)) \<and>
           i < length subset_of_coordinates \<and> f = subset_of_coordinates ! i \<and>
           (\<forall>j<length subset_of_coordinates. distances ! j \<le> distances ! i) \<and>
           (\<forall>j<i. distances ! j < distances ! i)"
    using f by (rule farthest_point_from_line_InrE) blast
next
  fix f err
  assume "subset_of_coordinates \<noteq> []"
    "farthest_point_from_line subset_of_coordinates line_start line_end = Inr f"
    "find_hull (fst (find_coordinates_above_and_below_line subset_of_coordinates line_start f))
             line_start f = Inl err"
  then show "find_hull subset_of_coordinates line_start line_end = Inl err"
    by (simp add: find_hull_step partition_filter)
next
  fix f right_hull err
  assume "subset_of_coordinates \<noteq> []"
    "farthest_point_from_line subset_of_coordinates line_start line_end = Inr f"
    "find_hull (fst (find_coordinates_above_and_below_line subset_of_coordinates line_start f))
             line_start f = Inr right_hull"
    "find_hull (fst (find_coordinates_above_and_below_line subset_of_coordinates f line_end))
                f line_end = Inl err"
  then show "find_hull subset_of_coordinates line_start line_end = Inl err"
    by (simp add: find_hull_step partition_filter)
next
  fix f right_hull left_hull
  assume "subset_of_coordinates \<noteq> []"
    "farthest_point_from_line subset_of_coordinates line_start line_end = Inr f"
    "find_hull (fst (find_coordinates_above_and_below_line subset_of_coordinates line_start f))
             line_start f = Inr right_hull"
    "find_hull (fst (find_coordinates_above_and_below_line subset_of_coordinates f line_end))
                f line_end = Inr left_hull"
  then show "find_hull subset_of_coordinates line_start line_end
                = Inr ([f] @ right_hull @ left_hull)"
    by (simp add: find_hull_step partition_filter)
qed

theorem find_hull_structure_witness:
  "[(5,5),(2,5)] \<noteq> ([] :: point list) \<and>
   farthest_point_from_line [(5,5),(2,5)] (0,0) (10,5) = Inr (2,5) \<and>
   find_hull (fst (find_coordinates_above_and_below_line [(5,5),(2,5)] (0,0) (2,5)))
     (0,0) (2,5) = Inr [] \<and>
   find_hull (fst (find_coordinates_above_and_below_line [(5,5),(2,5)] (2,5) (10,5)))
     (2,5) (10,5) = Inr [] \<and>
   find_hull [(5,5),(2,5)] (0,0) (10,5) = Inr ([(2,5)] @ [] @ [])"
proof -
  have ne: "[(5,5),(2,5)] \<noteq> ([] :: point list)" by simp
  have r: "find_hull (fst (find_coordinates_above_and_below_line [(5,5),(2,5)] (0,0) (2,5)))
     (0,0) (2,5) = Inr []"
    by (simp add: partition_filter cross_product_def)
  have l: "find_hull (fst (find_coordinates_above_and_below_line [(5,5),(2,5)] (2,5) (10,5)))
     (2,5) (10,5) = Inr []"
    by (simp add: partition_filter cross_product_def)
  have "find_hull [(5,5),(2,5)] (0,0) (10,5) = Inr ([(2,5)] @ [] @ [])"
    using find_hull_structure[of "(0,0)" "(10,5)" "[(5,5),(2,5)]"]
      ne farthest_second_run_above r l by blast
  then show ?thesis using ne farthest_second_run_above r l by blast
qed

text \<open>
  A recursive call can fail although the farthest point was selected: the new baseline
  from \<^verbatim>\<open>[2**53,0]\<close> to \<^verbatim>\<open>[2**53+1,0]\<close> has the binary64 length zero.
\<close>

lemma find_hull_recursive_call_can_fail:
  "farthest_point_from_line [(9007199254740993, 0), (9007199254740992, 1)]
     (9007199254740992, 0) (9007199254740997, - 100) = Inr (9007199254740993, 0) \<and>
   find_hull [(9007199254740992, 1)] (9007199254740992, 0) (9007199254740993, 0)
     = Inl ZeroDivisionError \<and>
   find_hull [(9007199254740993, 0), (9007199254740992, 1)]
     (9007199254740992, 0) (9007199254740997, - 100) = Inl ZeroDivisionError"
proof -
  have b: "\<bar>round_double 9007199254740997\<bar> < double_inf"
    by (rule round_double_below_inf) simp
  have far: "farthest_point_from_line [(9007199254740993, 0), (9007199254740992, 1)]
     (9007199254740992, 0) (9007199254740997, - 100) = Inr (9007199254740993, 0)"
    using b by (intro farthest_point_head_conv)
      (simp_all add: cross_product_def round_double_numeral numeral_below_inf)
  have d: "math_dist (9007199254740992, 0) (9007199254740993, 0) = Inr 0"
    by (simp add: math_dist_Inr_iff round_double_numeral round_double_tie_numeral
          numeral_below_inf)
  have "distance_from_line_to_point (9007199254740992, 0) (9007199254740993, 0)
          (9007199254740992, 1) = Inl ZeroDivisionError"
    by (simp add: distance_from_line_to_point_def d py_truediv_def cross_product_def)
  then have "farthest_point_from_line [(9007199254740992, 1)]
          (9007199254740992, 0) (9007199254740993, 0) = Inl ZeroDivisionError"
    by (simp add: farthest_point_from_line_def)
  then have rec: "find_hull [(9007199254740992, 1)] (9007199254740992, 0) (9007199254740993, 0)
     = Inl ZeroDivisionError"
    by (intro find_hull_fail) simp_all
  have ne: "[(9007199254740993, 0), (9007199254740992, 1)] \<noteq> ([] :: point list)" by simp
  have fr: "filter (\<lambda>p. 0 < cross_product (9007199254740992, 0) (9007199254740993, 0) p)
              [(9007199254740993, 0), (9007199254740992, 1)] = [(9007199254740992, 1)]"
    by (simp add: cross_product_def)
  have "find_hull [(9007199254740993, 0), (9007199254740992, 1)]
     (9007199254740992, 0) (9007199254740997, - 100) = Inl ZeroDivisionError"
    unfolding find_hull_step[OF ne far] fr rec by simp
  with far rec show ?thesis by simp
qed

text \<open>
  Claim C3.  The partition puts a point into its first output exactly when the
  orientation of the point relative to the baseline is strictly positive; every other
  point, of zero or negative orientation, goes into the second output.  The two
  endpoints of the baseline, when they are in the input, go into the second output, and
  no point is left out: the lengths of the outputs add up to the length of the input.
\<close>
theorem partition_contract:
  "find_coordinates_above_and_below_line coordinates line_start line_end = (above_line, below_line)
   \<Longrightarrow>
   above_line = filter (\<lambda>p. 0 < cross_product line_start line_end p) coordinates \<and>
   below_line = filter (\<lambda>p. cross_product line_start line_end p \<le> 0) coordinates \<and>
   (\<forall>p. p \<in> set above_line \<longleftrightarrow>
          p \<in> set coordinates \<and> 0 < cross_product line_start line_end p) \<and>
   (\<forall>p. p \<in> set below_line \<longleftrightarrow>
          p \<in> set coordinates \<and> cross_product line_start line_end p \<le> 0) \<and>
   (line_start \<in> set coordinates \<longrightarrow> line_start \<in> set below_line) \<and>
   (line_end \<in> set coordinates \<longrightarrow> line_end \<in> set below_line) \<and>
   length above_line + length below_line = length coordinates"
proof -
  assume "find_coordinates_above_and_below_line coordinates line_start line_end = (above_line, below_line)"
  then have a: "above_line = filter (\<lambda>p. 0 < cross_product line_start line_end p) coordinates"
    and b: "below_line = filter (\<lambda>p. cross_product line_start line_end p \<le> 0) coordinates"
    by (simp_all add: partition_filter not_less)
  have len: "length above_line + length below_line = length coordinates"
    using sum_length_filter_compl[of "\<lambda>p. 0 < cross_product line_start line_end p" coordinates]
    by (simp add: a b not_less)
  show ?thesis using a b len by auto
qed

theorem partition_contract_witness:
  "find_coordinates_above_and_below_line [(0,0),(0,10),(10,0),(10,10),(5,5)] (0,0) (10,0) =
     ([(0,10),(10,10),(5,5)], [(0,0),(10,0)]) \<and>
   (0,0) \<in> set ([(0,0),(0,10),(10,0),(10,10),(5,5)] :: point list) \<and>
   (0,0) \<in> set ([(0,0),(10,0)] :: point list) \<and>
   (10,0) \<in> set ([(0,0),(0,10),(10,0),(10,10),(5,5)] :: point list) \<and>
   (10,0) \<in> set ([(0,0),(10,0)] :: point list) \<and>
   [(0,0),(10,0)] = filter (\<lambda>p. cross_product (0,0) (10,0) p \<le> 0)
                      [(0,0),(0,10),(10,0),(10,10),(5,5)]"
proof -
  have ev: "find_coordinates_above_and_below_line [(0,0),(0,10),(10,0),(10,10),(5,5)] (0,0) (10,0) =
     ([(0,10),(10,10),(5,5)], [(0,0),(10,0)])"
    by (simp add: partition_filter cross_product_def)
  from partition_contract[OF ev] have
    "[(0,0),(10,0)] = filter (\<lambda>p. cross_product (0,0) (10,0) p \<le> 0)
                      [(0,0),(0,10),(10,0),(10,10),(5,5)]"
    by blast
  then show ?thesis using ev by simp
qed

text \<open>
  Claim C4.  Every call of \<^verbatim>\<open>find_hull\<close> halts, and so do the two calls that
  \<^verbatim>\<open>quick_hull\<close> makes.  The selected farthest point \<open>f\<close> is a point of the subset,
  has orientation zero relative to both new baselines, is therefore in neither positive-side
  subset, and each recursive call works on a strictly shorter list.
\<close>
theorem find_hull_terminates:
  "find_hull_halts subset_of_coordinates line_start line_end \<and>
   (farthest_point_from_line subset_of_coordinates line_start line_end = Inr f \<longrightarrow>
      f \<in> set subset_of_coordinates \<and>
      cross_product line_start f f = 0 \<and> cross_product f line_end f = 0 \<and>
      f \<notin> set (fst (find_coordinates_above_and_below_line subset_of_coordinates line_start f)) \<and>
      f \<notin> set (fst (find_coordinates_above_and_below_line subset_of_coordinates f line_end)) \<and>
      length (fst (find_coordinates_above_and_below_line subset_of_coordinates line_start f))
        < length subset_of_coordinates \<and>
      length (fst (find_coordinates_above_and_below_line subset_of_coordinates f line_end))
        < length subset_of_coordinates) \<and>
   (find_leftmost_and_rightmost coordinates = Inr (leftmost, rightmost) \<longrightarrow>
      find_hull_halts
        (fst (find_coordinates_above_and_below_line coordinates leftmost rightmost))
        leftmost rightmost \<and>
      find_hull_halts
        (snd (find_coordinates_above_and_below_line coordinates leftmost rightmost))
        rightmost leftmost)"
proof (intro conjI impI)
  assume f: "farthest_point_from_line subset_of_coordinates line_start line_end = Inr f"
  show "f \<in> set subset_of_coordinates" using f by (rule farthest_point_mem)
  show "length (fst (find_coordinates_above_and_below_line subset_of_coordinates line_start f))
        < length subset_of_coordinates" using f by (rule above_right_smaller)
  show "length (fst (find_coordinates_above_and_below_line subset_of_coordinates f line_end))
        < length subset_of_coordinates" using f by (rule above_left_smaller)
qed (simp_all add: find_hull_halts_all partition_filter)

theorem find_hull_terminates_witness:
  "find_hull_halts [(0,10),(10,10),(5,5)] (0,0) (10,0) \<and>
   farthest_point_from_line [(0,10),(10,10),(5,5)] (0,0) (10,0) = Inr (0,10) \<and>
   (0,10) \<notin> set (fst (find_coordinates_above_and_below_line [(0,10),(10,10),(5,5)] (0,0) (0,10))) \<and>
   (0,10) \<notin> set (fst (find_coordinates_above_and_below_line [(0,10),(10,10),(5,5)] (0,10) (10,0))) \<and>
   length (fst (find_coordinates_above_and_below_line [(0,10),(10,10),(5,5)] (0,0) (0,10)))
     < length ([(0,10),(10,10),(5,5)] :: point list) \<and>
   length (fst (find_coordinates_above_and_below_line [(0,10),(10,10),(5,5)] (0,10) (10,0)))
     < length ([(0,10),(10,10),(5,5)] :: point list) \<and>
   find_leftmost_and_rightmost [(0,0),(0,10),(10,0),(10,10),(5,5)] = Inr ((0,0),(10,0)) \<and>
   find_hull_halts
     (snd (find_coordinates_above_and_below_line [(0,0),(0,10),(10,0),(10,10),(5,5)] (0,0) (10,0)))
     (10,0) (0,0)"
proof -
  have lr: "find_leftmost_and_rightmost [(0,0),(0,10),(10,0),(10,10),(5,5)] = Inr ((0,0),(10,0))"
    by (simp add: find_leftmost_and_rightmost_Cons)
  show ?thesis
    using find_hull_terminates[of "[(0,10),(10,10),(5,5)]" "(0,0)" "(10,0)" "(0,10)"
        "[(0,0),(0,10),(10,0),(10,10),(5,5)]" "(0,0)" "(10,0)"]
      farthest_point_example lr
    by blast
qed

text \<open>
  Claim C5.  On the square with an interior point,
  \<^verbatim>\<open>[[0,0],[0,10],[10,0],[10,10],[5,5]]\<close>, the points of the output of
  \<^verbatim>\<open>quick_hull\<close> are exactly the four corners, and \<^verbatim>\<open>[5,5]\<close> is not among them.
\<close>
theorem square_with_interior:
  "\<exists>h. quick_hull [(0,0),(0,10),(10,0),(10,10),(5,5)] = Inr h \<and>
       set h = {(0,0),(0,10),(10,0),(10,10)} \<and> (5,5) \<notin> set h"
  by (simp add: quick_hull_square) auto

text \<open>
  Claim C6.  On \<^verbatim>\<open>[[1,1],[1,5],[1,9]]\<close>, where all points share one x-coordinate,
  \<^verbatim>\<open>find_leftmost_and_rightmost\<close> returns the same point twice, and
  \<^verbatim>\<open>quick_hull\<close> fails with the division-by-zero error instead of returning a hull.
\<close>
theorem vertical_line_degenerate:
  "find_leftmost_and_rightmost [(1,1),(1,5),(1,9)] = Inr ((1,1),(1,1)) \<and>
   quick_hull [(1,1),(1,5),(1,9)] = Inl ZeroDivisionError"
proof -
  have lr: "find_leftmost_and_rightmost [(1,1),(1,5),(1,9)] = Inr ((1,1),(1,1))"
    by (simp add: find_leftmost_and_rightmost_Cons)
  have "quick_hull [(1,1),(1,5),(1,9)] = Inl ZeroDivisionError"
    using lr by (rule quick_hull_degenerate) simp_all
  with lr show ?thesis by simp
qed




text \<open>
  Claim C9.  On a non-empty input \<^verbatim>\<open>find_leftmost_and_rightmost\<close> returns as
  leftmost a point of minimal x-coordinate and as rightmost a point of maximal
  x-coordinate, each the first such point in input order.  On
  \<^verbatim>\<open>[[2,0],[2,5],[7,1]]\<close> the leftmost point is \<^verbatim>\<open>[2,0]\<close>.
\<close>
theorem extremal_first_occurrence:
  "(coordinates \<noteq> [] \<longrightarrow>
     (\<exists>leftmost rightmost.
        find_leftmost_and_rightmost coordinates = Inr (leftmost, rightmost) \<and>
        leftmost \<in> set coordinates \<and> (\<forall>p \<in> set coordinates. fst leftmost \<le> fst p) \<and>
        find (\<lambda>p. fst p = fst leftmost) coordinates = Some leftmost \<and>
        rightmost \<in> set coordinates \<and> (\<forall>p \<in> set coordinates. fst p \<le> fst rightmost) \<and>
        find (\<lambda>p. fst p = fst rightmost) coordinates = Some rightmost)) \<and>
   find_leftmost_and_rightmost [(2,0),(2,5),(7,1)] = Inr ((2,0),(7,1))"
proof (intro conjI impI)
  assume "coordinates \<noteq> []"
  then obtain l r where lr: "find_leftmost_and_rightmost coordinates = Inr (l, r)"
    by (cases coordinates) (simp_all add: find_leftmost_and_rightmost_Cons)
  show "\<exists>leftmost rightmost.
        find_leftmost_and_rightmost coordinates = Inr (leftmost, rightmost) \<and>
        leftmost \<in> set coordinates \<and> (\<forall>p \<in> set coordinates. fst leftmost \<le> fst p) \<and>
        find (\<lambda>p. fst p = fst leftmost) coordinates = Some leftmost \<and>
        rightmost \<in> set coordinates \<and> (\<forall>p \<in> set coordinates. fst p \<le> fst rightmost) \<and>
        find (\<lambda>p. fst p = fst rightmost) coordinates = Some rightmost"
    using lr leftmost_props[OF lr] rightmost_props[OF lr] by blast
next
  show "find_leftmost_and_rightmost [(2,0),(2,5),(7,1)] = Inr ((2,0),(7,1))"
    by (simp add: find_leftmost_and_rightmost_Cons)
qed

theorem extremal_first_occurrence_witness:
  "[(2,0),(2,5),(7,1)] \<noteq> ([] :: point list) \<and>
   find_leftmost_and_rightmost [(2,0),(2,5),(7,1)] = Inr ((2,0),(7,1)) \<and>
   find (\<lambda>p. fst p = fst ((2,0) :: point)) [(2,0),(2,5),(7,1)] = Some (2,0) \<and>
   find (\<lambda>p. fst p = fst ((7,1) :: point)) [(2,0),(2,5),(7,1)] = Some (7,1)"
  using extremal_first_occurrence[of "[(2,0),(2,5),(7,1)]"]
  by auto

text \<open>
  Claim C10.  The output can hold one point at two positions although the input points
  are pairwise distinct.  On the square with an interior point the leftmost point
  \<^verbatim>\<open>[0,0]\<close> has orientation zero, is put into the below-line partition, is selected
  there as the farthest point, and so occurs at positions 0 and 3 of the output.
\<close>
theorem duplicate_hull_vertex:
  "distinct ([(0,0),(0,10),(10,0),(10,10),(5,5)] :: point list) \<and>
   quick_hull [(0,0),(0,10),(10,0),(10,10),(5,5)] = Inr [(0,0),(0,10),(10,10),(0,0),(10,0)] \<and>
   [(0,0),(0,10),(10,10),(0,0),(10,0)] ! 0 = ([(0,0),(0,10),(10,10),(0,0),(10,0)] ! 3 :: point) \<and>
   \<not> distinct ([(0,0),(0,10),(10,10),(0,0),(10,0)] :: point list) \<and>
   find_leftmost_and_rightmost [(0,0),(0,10),(10,0),(10,10),(5,5)] = Inr ((0,0),(10,0)) \<and>
   cross_product (0,0) (10,0) (0,0) = 0 \<and>
   snd (find_coordinates_above_and_below_line [(0,0),(0,10),(10,0),(10,10),(5,5)] (0,0) (10,0))
     = [(0,0),(10,0)] \<and>
   farthest_point_from_line [(0,0),(10,0)] (10,0) (0,0) = Inr (0,0) \<and>
   find_hull [(0,0),(10,0)] (10,0) (0,0) = Inr [(0,0)]"
  by (simp add: quick_hull_square) (simp add: eval_simps)


text \<open>
  The second run can also fail where the first one returned: on
  \<^verbatim>\<open>[[2**53+1,-1],[2**53+1,2**53],[2**53,2**53]]\<close> the output of the first run has
  a leftmost and a rightmost point whose binary64 distance is zero.
\<close>

lemma quick_hull_rerun_can_fail:
  "quick_hull [(9007199254740993, - 1), (9007199254740993, 9007199254740992),
               (9007199254740992, 9007199254740992)]
   = Inr [(9007199254740992, 9007199254740992), (9007199254740993, 9007199254740992),
          (9007199254740993, - 1), (9007199254740993, - 1)] \<and>
   quick_hull [(9007199254740992, 9007199254740992), (9007199254740993, 9007199254740992),
               (9007199254740993, - 1), (9007199254740993, - 1)]
   = Inl ZeroDivisionError"
  using quick_hull_large_first quick_hull_large_again by simp



end
